theory Spec2Isabelle
  imports Main "HOL-Library.Word" "HOL-Library.Signed_Division"
begin

section \<open>Expression trees and their postfix rendering\<close>

text \<open>
  \<^verbatim>\<open>struct S { string head; vector<shared_ptr<S>> rest; }\<close>: the parser only ever
  builds fresh nodes from already finished children, so a value of \<open>S\<close> is a finite tree.
\<close>

datatype S = S (head: string) (rest: "S list")

text \<open>
  \<^verbatim>\<open>S::to_string\<close>: the loop appends, for every child in order, the child's rendering
  and one blank to the output stream, and the head comes last.
\<close>

fun to_string :: "S \<Rightarrow> string" where
  "to_string (S h r) = foldl (\<lambda>oss s. oss @ to_string s @ '' '') [] r @ h"

section \<open>Tokens and the lexer\<close>

datatype TokenType = Atom | Op | Eof

record Token =
  type :: TokenType
  "value" :: string

text \<open>
  The character classes of \<^verbatim>\<open><cctype>\<close> in the C locale. Bytes outside ASCII belong
  to none of them.
\<close>

definition isspace :: "char \<Rightarrow> bool" where
  "isspace c = (c \<in> {CHR '' '', CHR 0x09, CHR 0x0A, CHR 0x0B, CHR 0x0C, CHR 0x0D})"

definition isdigit :: "char \<Rightarrow> bool" where
  "isdigit c = (c \<in> set ''0123456789'')"

definition isalnum :: "char \<Rightarrow> bool" where
  "isalnum c = (isdigit c \<or>
     c \<in> set ''abcdefghijklmnopqrstuvwxyz'' \<or> c \<in> set ''ABCDEFGHIJKLMNOPQRSTUVWXYZ'')"

text \<open>\<^verbatim>\<open>input.substr(pos, len)\<close> for \<open>pos \<le> input.size()\<close>.\<close>

definition substr :: "string \<Rightarrow> nat \<Rightarrow> nat \<Rightarrow> string" where
  "substr input pos len = take len (drop pos input)"

text \<open>The inner loop \<^verbatim>\<open>while (i < input.size() && isdigit(input[i])) ++i;\<close>.\<close>

function scan_digits :: "string \<Rightarrow> nat \<Rightarrow> nat" where
  "scan_digits input i =
     (if i < length input \<and> isdigit (input ! i) then scan_digits input (i + 1) else i)"
  by pat_completeness auto
termination
  by (relation "measure (\<lambda>(input, i). length input - i)") auto

declare scan_digits.simps [simp del]

lemma scan_digits_ge: "i \<le> scan_digits input i"
proof (induction input i rule: scan_digits.induct)
  case (1 input i)
  then show ?case by (subst scan_digits.simps) auto
qed

lemma scan_digits_gt:
  "i < length input \<Longrightarrow> isdigit (input ! i) \<Longrightarrow> i < scan_digits input i"
  using scan_digits_ge [of "i + 1" input] by (subst scan_digits.simps) simp

lemma scan_digits_le: "i \<le> length input \<Longrightarrow> scan_digits input i \<le> length input"
proof (induction input i rule: scan_digits.induct)
  case (1 input i)
  then show ?case by (subst scan_digits.simps) auto
qed

text \<open>
  The body of the constructor \<^verbatim>\<open>Lexer::Lexer\<close>: the outer loop over the index \<open>i\<close>,
  with the vector of the tokens emitted so far.
\<close>

function lex_loop :: "string \<Rightarrow> nat \<Rightarrow> Token list \<Rightarrow> Token list" where
  "lex_loop input i tokens =
     (if i < length input then
        if isspace (input ! i) then lex_loop input (i + 1) tokens
        else if isdigit (input ! i) then
          lex_loop input (scan_digits input i)
            (tokens @ [\<lparr>type = Atom, value = substr input i (scan_digits input i - i)\<rparr>])
        else if isalnum (input ! i) then
          lex_loop input (i + 1) (tokens @ [\<lparr>type = Atom, value = [input ! i]\<rparr>])
        else
          lex_loop input (i + 1) (tokens @ [\<lparr>type = Op, value = [input ! i]\<rparr>])
      else tokens)"
  by pat_completeness auto
termination
proof (relation "measure (\<lambda>(input, i, tokens). length input - i)")
  fix input :: string and i :: nat and tokens :: "Token list"
  assume "i < length input" "\<not> isspace (input ! i)" "isdigit (input ! i)"
  then have "i < scan_digits input i" by (simp add: scan_digits_gt)
  with \<open>i < length input\<close>
  show "((input, scan_digits input i,
          tokens @ [\<lparr>type = Atom, value = substr input i (scan_digits input i - i)\<rparr>]),
         (input, i, tokens)) \<in> measure (\<lambda>(input, i, tokens). length input - i)"
    by simp
qed auto

declare lex_loop.simps [simp del]

text \<open>
  The lexer object: its only member is the vector \<open>tokens\<close>, whose back is the last
  element of the list. The constructor appends the end marker and reverses the vector,
  so that the first token of the input is at the back.
\<close>

record Lexer =
  tokens :: "Token list"

definition Lexer_new :: "string \<Rightarrow> Lexer" where
  "Lexer_new input = \<lparr>tokens = rev (lex_loop input 0 [] @ [\<lparr>type = Eof, value = []\<rparr>])\<rparr>"

text \<open>\<^verbatim>\<open>Lexer::next\<close> returns the token and the lexer after the call.\<close>

definition Lexer_next :: "Lexer \<Rightarrow> Token \<times> Lexer" where
  "Lexer_next lexer =
     (if tokens lexer = [] then (\<lparr>type = Eof, value = []\<rparr>, lexer)
      else (last (tokens lexer), lexer\<lparr>tokens := butlast (tokens lexer)\<rparr>))"

definition Lexer_peek :: "Lexer \<Rightarrow> Token" where
  "Lexer_peek lexer =
     (if tokens lexer = [] then \<lparr>type = Eof, value = []\<rparr> else last (tokens lexer))"

section \<open>Binding powers\<close>

fun infix_binding_power :: "char \<Rightarrow> int \<times> int" where
  "infix_binding_power c =
     (if c = CHR ''='' then (2, 1)
      else if c = CHR ''?'' then (4, 3)
      else if c = CHR ''+'' \<or> c = CHR ''-'' then (5, 6)
      else if c = CHR ''*'' \<or> c = CHR ''/'' then (7, 8)
      else if c = CHR ''.'' then (14, 13)
      else (-1, -1))"

fun prefix_binding_power :: "char \<Rightarrow> int" where
  "prefix_binding_power c =
     (if c = CHR ''+'' \<or> c = CHR ''-'' then 9
      else if c = CHR ''('' then 15
      else -1)"

fun postfix_binding_power :: "char \<Rightarrow> int" where
  "postfix_binding_power c =
     (if c = CHR ''!'' \<or> c = CHR ''['' then 11
      else if c = CHR '')'' then 12
      else -1)"

section \<open>The precedence parser\<close>

text \<open>
  \<^verbatim>\<open>token.value[0]\<close>: on a \<^verbatim>\<open>std::string\<close> the index \<open>size()\<close> reads the terminating
  null character.
\<close>

definition value0 :: "Token \<Rightarrow> char" where
  "value0 t = (case value t of [] \<Rightarrow> CHR 0x00 | c # cs \<Rightarrow> c)"

datatype error = Unexpected_token

text \<open>
  \<^verbatim>\<open>expr_bp\<close> may run forever, so the model counts steps: the first argument bounds the
  number of calls of \<^verbatim>\<open>expr_bp\<close> plus iterations of its \<^verbatim>\<open>while (true)\<close> loop that may
  still be started, and \<open>None\<close> says that the bound was reached. \<open>expr_bp\<close> is the
  function from its entry, \<open>expr_loop\<close> is the function from the head of its loop, with
  the local \<open>lhs\<close>. \<open>Some (Inl e)\<close> is the exception thrown, \<open>Some (Inr (t, lexer))\<close> the
  tree returned and the lexer as the call leaves it.
\<close>

fun expr_bp :: "nat \<Rightarrow> Lexer \<Rightarrow> int \<Rightarrow> (error + S \<times> Lexer) option"
  and expr_loop :: "nat \<Rightarrow> S \<Rightarrow> Lexer \<Rightarrow> int \<Rightarrow> (error + S \<times> Lexer) option" where
  "expr_bp 0 lexer min_bp = None"
| "expr_bp (Suc n) lexer min_bp =
     (case Lexer_next lexer of (token, lexer1) \<Rightarrow>
        if type token = Atom then expr_loop n (S (value token) []) lexer1 min_bp
        else if type token = Op \<and> value token = ''('' then
          (case expr_bp n lexer1 0 of
             None \<Rightarrow> None
           | Some (Inl e) \<Rightarrow> Some (Inl e)
           | Some (Inr (lhs, lexer2)) \<Rightarrow> expr_loop n lhs lexer2 min_bp)
        else if type token = Op then
          (case expr_bp n lexer1 (prefix_binding_power (value0 token)) of
             None \<Rightarrow> None
           | Some (Inl e) \<Rightarrow> Some (Inl e)
           | Some (Inr (rhs, lexer2)) \<Rightarrow> expr_loop n (S (value token) [rhs]) lexer2 min_bp)
        else Some (Inl Unexpected_token))"
| "expr_loop 0 lhs lexer min_bp = None"
| "expr_loop (Suc n) lhs lexer min_bp =
     (case Lexer_peek lexer of lookahead \<Rightarrow>
        if type lookahead = Eof then Some (Inr (lhs, lexer))
        else if type lookahead = Op then
          if postfix_binding_power (value0 lookahead) \<ge> min_bp then
            expr_loop n (S (value lookahead) [lhs]) (snd (Lexer_next lexer)) min_bp
          else
            (case infix_binding_power (value0 lookahead) of (l_bp, r_bp) \<Rightarrow>
               if l_bp < min_bp then Some (Inr (lhs, lexer))
               else if value0 lookahead = CHR ''?'' then
                 (case expr_bp n (snd (Lexer_next lexer)) 0 of
                    None \<Rightarrow> None
                  | Some (Inl e) \<Rightarrow> Some (Inl e)
                  | Some (Inr (mhs, lexer2)) \<Rightarrow>
                      (case expr_bp n lexer2 r_bp of
                         None \<Rightarrow> None
                       | Some (Inl e) \<Rightarrow> Some (Inl e)
                       | Some (Inr (rhs, lexer3)) \<Rightarrow>
                           expr_loop n (S (value lookahead) [lhs, mhs, rhs]) lexer3 min_bp))
               else
                 (case expr_bp n (snd (Lexer_next lexer)) r_bp of
                    None \<Rightarrow> None
                  | Some (Inl e) \<Rightarrow> Some (Inl e)
                  | Some (Inr (rhs, lexer2)) \<Rightarrow>
                      expr_loop n (S (value lookahead) [lhs, rhs]) lexer2 min_bp))
        else expr_loop n lhs lexer min_bp)"

text \<open>\<^verbatim>\<open>expr\<close>: a fresh lexer over the input, parsed from binding power 0.\<close>

definition expr :: "nat \<Rightarrow> string \<Rightarrow> (error + S) option" where
  "expr n input =
     (case expr_bp n (Lexer_new input) 0 of
        None \<Rightarrow> None
      | Some (Inl e) \<Rightarrow> Some (Inl e)
      | Some (Inr (t, lexer)) \<Rightarrow> Some (Inr t))"

text \<open>
  \<^verbatim>\<open>expr(input)->to_string()\<close>, as the tests and \<^verbatim>\<open>main\<close> render a parse.
\<close>

definition expr_to_string :: "nat \<Rightarrow> string \<Rightarrow> (error + string) option" where
  "expr_to_string n input =
     (case expr n input of
        None \<Rightarrow> None
      | Some (Inl e) \<Rightarrow> Some (Inl e)
      | Some (Inr t) \<Rightarrow> Some (Inr (to_string t)))"

section \<open>The stack-machine backend\<close>

text \<open>
  The program drives GNU lightning, a library outside the repository. Its registers and
  the instructions \<^verbatim>\<open>compile_rpn\<close> emits, in the order and with the operands of the
  \<^verbatim>\<open>jit_*\<close> calls; \<^verbatim>\<open>JIT_FP\<close> is the base of every memory operand and is left out.
\<close>

datatype reg = JIT_R0 | JIT_R1 | JIT_R2

datatype jit_node =
    Getarg reg
  | Stxi_i int reg
  | Ldxi_i reg int
  | Movi reg int
  | Addr reg reg reg
  | Subr reg reg reg
  | Mulr reg reg reg
  | Divr reg reg reg
  | Retr reg

text \<open>
  \<^verbatim>\<open>stack_push\<close> and \<^verbatim>\<open>stack_pop\<close>: \<open>sp\<close> is the value of \<^verbatim>\<open>*sp\<close> at the call, \<open>jit\<close> the
  instructions emitted so far; the result is the new \<^verbatim>\<open>*sp\<close> and the instructions after
  the call. \<^verbatim>\<open>sizeof(int)\<close> is 4.
\<close>

definition stack_push :: "reg \<Rightarrow> int \<Rightarrow> jit_node list \<Rightarrow> int \<times> jit_node list" where
  "stack_push r sp jit = (sp + 4, jit @ [Stxi_i sp r])"

definition stack_pop :: "reg \<Rightarrow> int \<Rightarrow> jit_node list \<Rightarrow> int \<times> jit_node list" where
  "stack_pop r sp jit = (sp - 4, jit @ [Ldxi_i r (sp - 4)])"

text \<open>
  \<^verbatim>\<open>sscanf(expr, "%[0-9]%n", buf, &n)\<close> on a non-empty string: no conversion when the
  first character is no digit, else the leading run of digits in \<open>buf\<close> and its length
  in \<open>n\<close>.
\<close>

definition sscanf_digits :: "string \<Rightarrow> (string \<times> nat) option" where
  "sscanf_digits s =
     (if takeWhile isdigit s = [] then None
      else Some (takeWhile isdigit s, length (takeWhile isdigit s)))"

text \<open>\<^verbatim>\<open>atoi\<close> on a run of digits.\<close>

definition atoi :: "string \<Rightarrow> int" where
  "atoi buf = foldl (\<lambda>acc c. 10 * acc + (int (of_char c) - 48)) 0 buf"

text \<open>
  What can go wrong in the backend: \<^verbatim>\<open>abort()\<close> on a character that is not compiled;
  behaviour C leaves undefined (a run of more than 31 digits written to \<^verbatim>\<open>buf[32]\<close>, a
  value \<^verbatim>\<open>atoi\<close> cannot represent); and, when the compiled code runs, a division by
  zero, an access outside the 32 slots of the frame block, and code without a return.
\<close>

datatype backend_error =
    Cannot_compile | Undefined_behaviour | Division_fault | Frame_fault | No_return

text \<open>
  The loop \<^verbatim>\<open>while (*expr)\<close> of \<^verbatim>\<open>compile_rpn\<close>, over the rest of the string, the local
  \<^verbatim>\<open>stack_ptr\<close> and the instructions emitted so far. After a number the pointer moves by
  \<open>n - 1\<close> and then, at the end of the body, by one more.
\<close>

function compile_loop :: "string \<Rightarrow> int \<Rightarrow> jit_node list \<Rightarrow> backend_error + jit_node list" where
  "compile_loop e sp jit =
     (case e of
        [] \<Rightarrow> Inr jit
      | c # cs \<Rightarrow>
          if c = CHR 0x00 then Inr jit
          else
            (case sscanf_digits e of
               Some (buf, n) \<Rightarrow>
                 if 32 \<le> n \<or> 2147483647 < atoi buf then Inl Undefined_behaviour
                 else
                   (case stack_push JIT_R0 sp jit of (sp1, jit1) \<Rightarrow>
                      compile_loop (drop 1 (drop (n - 1) e)) sp1
                        (jit1 @ [Movi JIT_R0 (atoi buf)]))
             | None \<Rightarrow>
                 if c = CHR ''+'' then
                   (case stack_pop JIT_R1 sp jit of (sp1, jit1) \<Rightarrow>
                      compile_loop cs sp1 (jit1 @ [Addr JIT_R0 JIT_R1 JIT_R0]))
                 else if c = CHR ''-'' then
                   (case stack_pop JIT_R1 sp jit of (sp1, jit1) \<Rightarrow>
                      compile_loop cs sp1 (jit1 @ [Subr JIT_R0 JIT_R1 JIT_R0]))
                 else if c = CHR ''*'' then
                   (case stack_pop JIT_R1 sp jit of (sp1, jit1) \<Rightarrow>
                      compile_loop cs sp1 (jit1 @ [Mulr JIT_R0 JIT_R1 JIT_R0]))
                 else if c = CHR ''/'' then
                   (case stack_pop JIT_R1 sp jit of (sp1, jit1) \<Rightarrow>
                      compile_loop cs sp1 (jit1 @ [Divr JIT_R0 JIT_R1 JIT_R0]))
                 else if c = CHR ''('' \<or> c = CHR '')'' \<or> c = CHR '' '' then
                   compile_loop cs sp jit
                 else Inl Cannot_compile))"
  by pat_completeness auto
termination
  by (relation "measure (\<lambda>(e, sp, jit). length e)")
    (auto simp: sscanf_digits_def stack_push_def stack_pop_def split: if_splits)

declare compile_loop.simps [simp del]

text \<open>
  \<^verbatim>\<open>compile_rpn\<close>: \<open>stack_base\<close> is the offset \<^verbatim>\<open>jit_allocai(32 * sizeof(int))\<close> returned.
  The argument is loaded into \<^verbatim>\<open>JIT_R2\<close>, the loop runs from the base of the block, and
  \<^verbatim>\<open>JIT_R0\<close> is returned.
\<close>

definition compile_rpn :: "int \<Rightarrow> string \<Rightarrow> backend_error + jit_node list" where
  "compile_rpn stack_base e =
     (case compile_loop e stack_base [Getarg JIT_R2] of
        Inl e \<Rightarrow> Inl e
      | Inr jit \<Rightarrow> Inr (jit @ [Retr JIT_R0]))"


text \<open>
  The compiled code at run time, with the meaning lightning's manual gives its
  instructions, on a host with 64-bit registers: the registers, and the
  frame as 32-bit slots by their offset (the code only uses the offsets \<open>stack_base + 4 * k\<close>).
  \<^verbatim>\<open>jit_stxi_i\<close> stores the low 32 bits of a register, \<^verbatim>\<open>jit_ldxi_i\<close> loads a slot with
  its sign, \<^verbatim>\<open>jit_divr\<close> divides signed and truncates, and the caller reads the result as
  an \<^verbatim>\<open>int\<close>. \<open>arg\<close> is what \<^verbatim>\<open>jit_getarg\<close> finds: the caller passes no argument.
\<close>

record cpu =
  regs :: "reg \<Rightarrow> 64 word"
  frame :: "int \<Rightarrow> 32 word"

definition in_block :: "int \<Rightarrow> int \<Rightarrow> bool" where
  "in_block stack_base off = (stack_base \<le> off \<and> off + 4 \<le> stack_base + 128)"

fun run :: "int \<Rightarrow> 64 word \<Rightarrow> jit_node list \<Rightarrow> cpu \<Rightarrow> backend_error + 32 word" where
  "run stack_base arg [] m = Inl No_return"
| "run stack_base arg (Getarg r # code) m =
     run stack_base arg code (m\<lparr>regs := (regs m)(r := arg)\<rparr>)"
| "run stack_base arg (Stxi_i off r # code) m =
     (if in_block stack_base off
      then run stack_base arg code (m\<lparr>frame := (frame m)(off := ucast (regs m r))\<rparr>)
      else Inl Frame_fault)"
| "run stack_base arg (Ldxi_i r off # code) m =
     (if in_block stack_base off
      then run stack_base arg code (m\<lparr>regs := (regs m)(r := scast (frame m off))\<rparr>)
      else Inl Frame_fault)"
| "run stack_base arg (Movi r i # code) m =
     run stack_base arg code (m\<lparr>regs := (regs m)(r := word_of_int i)\<rparr>)"
| "run stack_base arg (Addr d a b # code) m =
     run stack_base arg code (m\<lparr>regs := (regs m)(d := regs m a + regs m b)\<rparr>)"
| "run stack_base arg (Subr d a b # code) m =
     run stack_base arg code (m\<lparr>regs := (regs m)(d := regs m a - regs m b)\<rparr>)"
| "run stack_base arg (Mulr d a b # code) m =
     run stack_base arg code (m\<lparr>regs := (regs m)(d := regs m a * regs m b)\<rparr>)"
| "run stack_base arg (Divr d a b # code) m =
     (if regs m b = 0 then Inl Division_fault
      else run stack_base arg code
        (m\<lparr>regs := (regs m)(d := word_of_int (sint (regs m a) sdiv sint (regs m b)))\<rparr>))"
| "run stack_base arg (Retr r # code) m = Inr (ucast (regs m r))"

text \<open>\<^verbatim>\<open>eval(line)()\<close>: compile, then call the code, from any state of the machine.\<close>

definition eval :: "int \<Rightarrow> 64 word \<Rightarrow> string \<Rightarrow> cpu \<Rightarrow> backend_error + 32 word" where
  "eval stack_base arg line m =
     (case compile_rpn stack_base line of
        Inl e \<Rightarrow> Inl e
      | Inr code \<Rightarrow> run stack_base arg code m)"

text \<open>
  The string with every \<open>(\<close> and \<open>)\<close> deleted, and the test whether somewhere in a
  string a run of parentheses stands directly between two digits, so that deleting it
  would join two numbers.
\<close>

definition is_paren :: "char \<Rightarrow> bool" where
  "is_paren c = (c = CHR ''('' \<or> c = CHR '')'')"

definition strip_parens :: "string \<Rightarrow> string" where
  "strip_parens e = filter (\<lambda>c. \<not> is_paren c) e"

definition digit_after_parens :: "string \<Rightarrow> bool" where
  "digit_after_parens cs =
     (case cs of
        [] \<Rightarrow> False
      | p # ps \<Rightarrow>
          is_paren p \<and> (case dropWhile is_paren ps of [] \<Rightarrow> False | d # ds \<Rightarrow> isdigit d))"

fun paren_joins_digits :: "string \<Rightarrow> bool" where
  "paren_joins_digits [] = False"
| "paren_joins_digits (c # cs) =
     ((isdigit c \<and> digit_after_parens cs) \<or> paren_joins_digits cs)"

section \<open>The backend contract, as the specification words it\<close>

text \<open>
  The instructions of the postfix form, as the specification has them: push an integer
  constant, or apply a binary operator.
\<close>

datatype binop = Plus | Minus | Times | Divide

datatype rpn_item = Push int | Apply binop

text \<open>
  A string read as such a sequence, character by character as the loop of \<^verbatim>\<open>compile_rpn\<close>
  reads it: a run of digits is a constant, each of \<open>+ - * /\<close> an operator, parentheses
  and blanks are passed over, the string ends at its end or at a null character. The
  errors are those of the compiler: a run of digits that overruns the buffer or the range
  of \<^verbatim>\<open>int\<close>, and any other character.
\<close>

function rpn_scan :: "string \<Rightarrow> backend_error + rpn_item list" where
  "rpn_scan [] = Inr []"
| "rpn_scan (c # cs) =
     (if c = CHR 0x00 then Inr []
      else if isdigit c then
        if 32 \<le> length (c # takeWhile isdigit cs) \<or>
           2147483647 < atoi (c # takeWhile isdigit cs)
        then Inl Undefined_behaviour
        else
          (case rpn_scan (dropWhile isdigit cs) of
             Inl err \<Rightarrow> Inl err
           | Inr items \<Rightarrow> Inr (Push (atoi (c # takeWhile isdigit cs)) # items))
      else if c = CHR ''+'' then
        (case rpn_scan cs of Inl err \<Rightarrow> Inl err | Inr items \<Rightarrow> Inr (Apply Plus # items))
      else if c = CHR ''-'' then
        (case rpn_scan cs of Inl err \<Rightarrow> Inl err | Inr items \<Rightarrow> Inr (Apply Minus # items))
      else if c = CHR ''*'' then
        (case rpn_scan cs of Inl err \<Rightarrow> Inl err | Inr items \<Rightarrow> Inr (Apply Times # items))
      else if c = CHR ''/'' then
        (case rpn_scan cs of Inl err \<Rightarrow> Inl err | Inr items \<Rightarrow> Inr (Apply Divide # items))
      else if c = CHR ''('' \<or> c = CHR '')'' \<or> c = CHR '' '' then rpn_scan cs
      else Inl Cannot_compile)"
  by pat_completeness auto
termination
  by (relation "measure length") (auto simp: length_dropWhile_le less_Suc_eq_le)

text \<open>
  The stack machine of the contract on integers: a constant is pushed; an operator pops
  two values, the first popped is the right operand and the second popped the left one,
  and pushes the result. Outside the contract, and \<open>None\<close> here: more than 32 values, a
  value that is no \<^verbatim>\<open>int\<close>, a division by zero, an operator on fewer than two values.
\<close>

definition int_ok :: "int \<Rightarrow> bool" where
  "int_ok v = (- 2147483648 \<le> v \<and> v \<le> 2147483647)"

fun apply_binop :: "binop \<Rightarrow> int \<Rightarrow> int \<Rightarrow> int" where
  "apply_binop Plus left right = left + right"
| "apply_binop Minus left right = left - right"
| "apply_binop Times left right = left * right"
| "apply_binop Divide left right = left sdiv right"

fun rpn_reference :: "rpn_item list \<Rightarrow> int list \<Rightarrow> int list option" where
  "rpn_reference [] stack = Some stack"
| "rpn_reference (Push v # items) stack =
     (if length stack < 32 \<and> int_ok v then rpn_reference items (v # stack) else None)"
| "rpn_reference (Apply f # items) (right # left # stack) =
     (if f = Divide \<and> right = 0 then None
      else if int_ok (apply_binop f left right)
      then rpn_reference items (apply_binop f left right # stack)
      else None)"
| "rpn_reference (Apply f # items) stack = None"

text \<open>
  The same machine as the backend lays it out: the top of the stack in a register of
  machine width, the values below it in \<^verbatim>\<open>int\<close> slots, the lowest slot taking whatever
  the register held before the first constant. Pushing cuts the old top to an \<^verbatim>\<open>int\<close>,
  popping reads a slot with its sign.
\<close>

fun alu :: "binop \<Rightarrow> 64 word \<Rightarrow> 64 word \<Rightarrow> 64 word" where
  "alu Plus left right = left + right"
| "alu Minus left right = left - right"
| "alu Times left right = left * right"
| "alu Divide left right = word_of_int (sint left sdiv sint right)"

fun stack_exec :: "rpn_item list \<Rightarrow> 64 word \<Rightarrow> 32 word list \<Rightarrow> backend_error + 32 word" where
  "stack_exec [] r0 slots = Inr (ucast r0)"
| "stack_exec (Push v # items) r0 slots =
     (if length slots < 32 then stack_exec items (word_of_int v) (ucast r0 # slots)
      else Inl Frame_fault)"
| "stack_exec (Apply f # items) r0 slots =
     (case slots of
        [] \<Rightarrow> Inl Frame_fault
      | left # below \<Rightarrow>
          if f = Divide \<and> r0 = 0 then Inl Division_fault
          else stack_exec items (alu f (scast left) r0) below)"

section \<open>The tokenizer rules, as the specification words them\<close>

text \<open>
  The text cut into its pieces: a digit joins the run of digits that follows it, every
  other character is a piece of its own.
\<close>

fun spec_pieces :: "string \<Rightarrow> string list" where
  "spec_pieces [] = []"
| "spec_pieces (c # cs) =
     (case spec_pieces cs of
        (d # ds) # ps \<Rightarrow>
          if isdigit c \<and> isdigit d then (c # d # ds) # ps else [c] # (d # ds) # ps
      | _ \<Rightarrow> [c] # spec_pieces cs)"

text \<open>
  The token of a piece, in the order of the rules: a run of digits is a numeric leaf,
  another alphanumeric character a leaf, whitespace nothing, any other character an
  operator.
\<close>

definition spec_token :: "string \<Rightarrow> Token list" where
  "spec_token p =
     (if list_all isdigit p then [\<lparr>type = Atom, value = p\<rparr>]
      else if list_all isalnum p then [\<lparr>type = Atom, value = p\<rparr>]
      else if list_all isspace p then []
      else [\<lparr>type = Op, value = p\<rparr>])"

definition spec_tokens :: "string \<Rightarrow> Token list" where
  "spec_tokens input =
     concat (map spec_token (spec_pieces input)) @ [\<lparr>type = Eof, value = []\<rparr>]"

text \<open>
  What makes the pieces the maximal runs: a piece is a non-empty run of digits or one
  single character, and no two runs of digits are neighbours.
\<close>

definition piece_ok :: "string \<Rightarrow> bool" where
  "piece_ok p = (p \<noteq> [] \<and> (list_all isdigit p \<or> length p = 1))"

fun adjacent_runs :: "string list \<Rightarrow> bool" where
  "adjacent_runs (p # q # ps) =
     ((list_all isdigit p \<and> list_all isdigit q) \<or> adjacent_runs (q # ps))"
| "adjacent_runs ps = False"

text \<open>\<open>k\<close> calls of \<^verbatim>\<open>next\<close> in a row: the tokens they return, and the lexer left.\<close>

fun drain :: "nat \<Rightarrow> Lexer \<Rightarrow> Token list \<times> Lexer" where
  "drain 0 lexer = ([], lexer)"
| "drain (Suc k) lexer =
     (case Lexer_next lexer of (t, lexer1) \<Rightarrow>
        case drain k lexer1 of (ts, lexer2) \<Rightarrow> (t # ts, lexer2))"


section \<open>Auxiliary definitions for the proofs\<close>

text \<open>
  \<open>fuel_le a b\<close>: the run \<open>a\<close> with the smaller bound either reached its bound or gave
  the result of \<open>b\<close>.
\<close>

definition fuel_le :: "'a option \<Rightarrow> 'a option \<Rightarrow> bool" where
  "fuel_le a b = (a = None \<or> a = b)"

text \<open>
  \<open>tokenize\<close> computes the tokens of a text by recursion on the text,
  and \<open>lex_loop_tokenize\<close> shows that the indexed loop of the constructor emits exactly
  these. \<open>Lexer_of ts\<close> is the lexer object whose pending tokens are \<open>ts\<close>, in the order
  in which \<open>Lexer_next\<close> hands them out.
\<close>

function tokenize :: "string \<Rightarrow> Token list" where
  "tokenize [] = []"
| "tokenize (c # cs) =
     (if isspace c then tokenize cs
      else if isdigit c then
        \<lparr>type = Atom, value = c # takeWhile isdigit cs\<rparr> # tokenize (dropWhile isdigit cs)
      else if isalnum c then \<lparr>type = Atom, value = [c]\<rparr> # tokenize cs
      else \<lparr>type = Op, value = [c]\<rparr> # tokenize cs)"
  by pat_completeness auto
termination
  by (relation "measure length") (auto simp: length_dropWhile_le less_Suc_eq_le)

definition Lexer_of :: "Token list \<Rightarrow> Lexer" where
  "Lexer_of ts = \<lparr>tokens = rev ts\<rparr>"

text \<open>
  What the lexer puts into a token, and so the parser into a head: at most one
  character, or a run of digits. \<open>inv_res\<close> says so of a result of the parser.
\<close>

definition token_value_ok :: "string \<Rightarrow> bool" where
  "token_value_ok v = (length v \<le> 1 \<or> list_all isdigit v)"

definition lexer_ok :: "Lexer \<Rightarrow> bool" where
  "lexer_ok lexer = list_all (\<lambda>t. token_value_ok (value t)) (tokens lexer)"

fun heads_ok :: "S \<Rightarrow> bool" where
  "heads_ok (S h r) = (token_value_ok h \<and> list_all heads_ok r)"

definition inv_res :: "(error + S \<times> Lexer) option \<Rightarrow> bool" where
  "inv_res r =
     (case r of None \<Rightarrow> True | Some (Inl e) \<Rightarrow> True
      | Some (Inr (t, lexer)) \<Rightarrow> heads_ok t \<and> lexer_ok lexer)"

text \<open>
  A parenthesis directly in front of a digit: a coarser test than \<open>paren_joins_digits\<close>,
  easier to follow through a rendering.
\<close>

fun paren_before_digit :: "string \<Rightarrow> bool" where
  "paren_before_digit (c # d # cs) = ((is_paren c \<and> isdigit d) \<or> paren_before_digit (d # cs))"
| "paren_before_digit cs = False"

text \<open>
  The instructions \<^verbatim>\<open>compile_rpn\<close> emits for a sequence read by \<open>rpn_scan\<close>, from a given
  stack pointer; the frame holding the slots of the stack; and the integers of the
  contract's stack held in the register and the slots.
\<close>

fun op_node :: "binop \<Rightarrow> jit_node" where
  "op_node Plus = Addr JIT_R0 JIT_R1 JIT_R0"
| "op_node Minus = Subr JIT_R0 JIT_R1 JIT_R0"
| "op_node Times = Mulr JIT_R0 JIT_R1 JIT_R0"
| "op_node Divide = Divr JIT_R0 JIT_R1 JIT_R0"

fun emit :: "rpn_item list \<Rightarrow> int \<Rightarrow> jit_node list" where
  "emit [] sp = []"
| "emit (Push v # items) sp = Stxi_i sp JIT_R0 # Movi JIT_R0 v # emit items (sp + 4)"
| "emit (Apply f # items) sp = Ldxi_i JIT_R1 (sp - 4) # op_node f # emit items (sp - 4)"

definition frame_holds :: "int \<Rightarrow> cpu \<Rightarrow> 32 word list \<Rightarrow> bool" where
  "frame_holds stack_base m slots =
     (length slots \<le> 32 \<and>
      (\<forall>i < length slots. frame m (stack_base + 4 * int i) = rev slots ! i))"

definition rel_stack :: "int list \<Rightarrow> 64 word \<Rightarrow> 32 word list \<Rightarrow> bool" where
  "rel_stack stack r0 slots =
     (list_all int_ok stack \<and>
      (case stack of
         [] \<Rightarrow> slots = []
       | v # vs \<Rightarrow> r0 = word_of_int v \<and> (\<exists>g. slots = map word_of_int vs @ [g])))"

section \<open>The step bound does not change a result\<close>

lemma fuel_le_refl: "fuel_le a a"
  by (simp add: fuel_le_def)

lemma fuel_le_None: "fuel_le None a"
  by (simp add: fuel_le_def)

lemma fuel_le_if:
  "(c \<Longrightarrow> fuel_le a a') \<Longrightarrow> (\<not> c \<Longrightarrow> fuel_le b b') \<Longrightarrow>
   fuel_le (if c then a else b) (if c then a' else b')"
  by simp

lemma fuel_le_prod:
  "(\<And>x y. fuel_le (f x y) (g x y)) \<Longrightarrow> fuel_le (case_prod f p) (case_prod g p)"
  by (cases p) simp

lemma fuel_le_bind:
  "fuel_le a a' \<Longrightarrow> (\<And>x. fuel_le (f x) (g x)) \<Longrightarrow>
   fuel_le
     (case a of None \<Rightarrow> None | Some s \<Rightarrow> (case s of Inl e \<Rightarrow> Some (Inl e) | Inr x \<Rightarrow> f x))
     (case a' of None \<Rightarrow> None | Some s \<Rightarrow> (case s of Inl e \<Rightarrow> Some (Inl e) | Inr x \<Rightarrow> g x))"
  by (auto simp: fuel_le_def split: option.splits sum.splits)

lemma expr_fuel_Suc:
  "fuel_le (expr_bp n lexer min_bp) (expr_bp (Suc n) lexer min_bp)"
  "fuel_le (expr_loop n lhs lexer min_bp) (expr_loop (Suc n) lhs lexer min_bp)"
proof (induction n arbitrary: lexer min_bp lhs)
  case 0
  { case 1 show ?case by (simp add: fuel_le_None) }
  { case 2 show ?case by (simp add: fuel_le_None) }
next
  case (Suc n)
  { case 1
    show ?case
      apply (subst expr_bp.simps(2) [of n])
      apply (subst expr_bp.simps(2) [of "Suc n"])
      apply (intro fuel_le_if fuel_le_prod fuel_le_bind Suc.IH fuel_le_refl)
      done }
  { case 2
    show ?case
      apply (subst expr_loop.simps(2) [of n])
      apply (subst expr_loop.simps(2) [of "Suc n"])
      apply (intro fuel_le_if fuel_le_prod fuel_le_bind Suc.IH fuel_le_refl)
      done }
qed

lemma expr_fuel_add:
  "fuel_le (expr_bp n lexer min_bp) (expr_bp (n + k) lexer min_bp)"
proof (induction k)
  case 0
  show ?case by (simp add: fuel_le_refl)
next
  case (Suc k)
  with expr_fuel_Suc(1) [of "n + k" lexer min_bp] show ?case
    by (auto simp: fuel_le_def)
qed

text \<open>Once a parse has returned or thrown within a bound, every larger bound agrees.\<close>

lemma expr_fuel_mono:
  assumes "expr n input = Some r" and "n \<le> m"
  shows "expr m input = Some r"
proof -
  from assms(1) have "expr_bp n (Lexer_new input) 0 \<noteq> None"
    by (auto simp: expr_def split: option.splits)
  with expr_fuel_add [of n "Lexer_new input" 0 "m - n"] assms(2)
  have "expr_bp m (Lexer_new input) 0 = expr_bp n (Lexer_new input) 0"
    by (simp add: fuel_le_def)
  with assms(1) show ?thesis by (simp add: expr_def)
qed

lemma expr_fuel_plus: "expr k input = Some r \<Longrightarrow> expr (k + n) input = Some r"
  using expr_fuel_mono [of k input r "k + n"] by simp

lemma expr_to_string_fuel_plus:
  "expr_to_string k input = Some r \<Longrightarrow> expr_to_string (k + n) input = Some r"
  by (auto simp: expr_to_string_def split: option.splits sum.splits
      dest: expr_fuel_plus [where n = n])

text \<open>
  A leaf token in lookahead position: the loop tests for the end marker and for an
  operator, does neither, and starts over with the same lexer.
\<close>

lemma expr_loop_Atom_lookahead:
  "type (Lexer_peek lexer) = Atom \<Longrightarrow> expr_loop n lhs lexer min_bp = None"
  by (induction n) simp_all

section \<open>The lexer, read from left to right\<close>

lemma scan_digits_takeWhile:
  "scan_digits input i = i + length (takeWhile isdigit (drop i input))"
proof (induction input i rule: scan_digits.induct)
  case (1 input i)
  show ?case
  proof (cases "i < length input")
    case False
    then show ?thesis by (subst scan_digits.simps) simp
  next
    case True
    then have d: "drop i input = input ! i # drop (Suc i) input"
      by (simp add: Cons_nth_drop_Suc)
    show ?thesis
    proof (cases "isdigit (input ! i)")
      case False
      with True d show ?thesis by (subst scan_digits.simps) simp
    next
      case digit: True
      with True "1" have "scan_digits input (i + 1) =
          i + 1 + length (takeWhile isdigit (drop (i + 1) input))" by simp
      with True digit d show ?thesis by (subst scan_digits.simps) simp
    qed
  qed
qed

lemma lex_loop_tokenize: "lex_loop input i toks = toks @ tokenize (drop i input)"
proof (induction input i toks rule: lex_loop.induct)
  case (1 input i toks)
  show ?case
  proof (cases "i < length input")
    case False
    then show ?thesis by (subst lex_loop.simps) simp
  next
    case True
    then have d: "drop i input = input ! i # drop (Suc i) input"
      by (simp add: Cons_nth_drop_Suc)
    have run: "substr input i (scan_digits input i - i) = takeWhile isdigit (drop i input)"
      by (simp add: substr_def scan_digits_takeWhile takeWhile_eq_take [symmetric])
    have rest: "drop (scan_digits input i) input = dropWhile isdigit (drop i input)"
      by (simp add: scan_digits_takeWhile dropWhile_eq_drop add.commute)
    consider (sp) "isspace (input ! i)"
      | (dg) "\<not> isspace (input ! i)" "isdigit (input ! i)"
      | (al) "\<not> isspace (input ! i)" "\<not> isdigit (input ! i)" "isalnum (input ! i)"
      | (op) "\<not> isspace (input ! i)" "\<not> isdigit (input ! i)" "\<not> isalnum (input ! i)"
      by blast
    then show ?thesis
    proof cases
      case sp
      with True "1.IH"(1) show ?thesis
        by (subst lex_loop.simps) (simp add: d)
    next
      case dg
      with True "1.IH"(2) show ?thesis
        by (subst lex_loop.simps) (simp add: d run rest)
    next
      case al
      with True "1.IH"(3) show ?thesis
        by (subst lex_loop.simps) (simp add: d)
    next
      case op
      with True "1.IH"(4) show ?thesis
        by (subst lex_loop.simps) (simp add: d)
    qed
  qed
qed

lemma Lexer_new_tokenize:
  "Lexer_new input = Lexer_of (tokenize input @ [\<lparr>type = Eof, value = []\<rparr>])"
  by (simp add: Lexer_new_def Lexer_of_def lex_loop_tokenize)

lemma Lexer_next_Cons [simp]: "Lexer_next (Lexer_of (t # ts)) = (t, Lexer_of ts)"
  by (simp add: Lexer_next_def Lexer_of_def)

lemma Lexer_next_Nil [simp]:
  "Lexer_next (Lexer_of []) = (\<lparr>type = Eof, value = []\<rparr>, Lexer_of [])"
  by (simp add: Lexer_next_def Lexer_of_def)

lemma Lexer_peek_Cons [simp]: "Lexer_peek (Lexer_of (t # ts)) = t"
  by (simp add: Lexer_peek_def Lexer_of_def)

lemma Lexer_peek_Nil [simp]: "Lexer_peek (Lexer_of []) = \<lparr>type = Eof, value = []\<rparr>"
  by (simp add: Lexer_peek_def Lexer_of_def)

lemma isdigit_not_isspace: "isdigit c \<Longrightarrow> \<not> isspace c"
  by (auto simp: isdigit_def isspace_def)

lemma isdigit_isalnum: "isdigit c \<Longrightarrow> isalnum c"
  by (simp add: isalnum_def)

lemma isalnum_not_isspace: "isalnum c \<Longrightarrow> \<not> isspace c"
  by (auto simp: isalnum_def isdigit_def isspace_def)

lemma takeWhile_all: "list_all P xs \<Longrightarrow> takeWhile P xs = xs"
  by (induction xs) simp_all

lemma dropWhile_all: "list_all P xs \<Longrightarrow> dropWhile P xs = []"
  by (induction xs) simp_all

lemma takeWhile_run: "list_all P xs \<Longrightarrow> \<not> P y \<Longrightarrow> takeWhile P (xs @ y # ys) = xs"
  by (induction xs) simp_all

lemma dropWhile_run: "list_all P xs \<Longrightarrow> \<not> P y \<Longrightarrow> dropWhile P (xs @ y # ys) = y # ys"
  by (induction xs) simp_all

lemma tokenize_spaces: "list_all isspace ws \<Longrightarrow> tokenize (ws @ xs) = tokenize xs"
  by (induction ws) simp_all

lemma tokenize_spaces_only: "list_all isspace ws \<Longrightarrow> tokenize ws = []"
  using tokenize_spaces [of ws "[]"] by simp

lemma tokenize_digits:
  assumes "d \<noteq> []" and "list_all isdigit d"
  shows "tokenize d = [\<lparr>type = Atom, value = d\<rparr>]"
proof -
  from assms obtain c cs where d: "d = c # cs" and c: "isdigit c" and cs: "list_all isdigit cs"
    by (cases d) auto
  from c cs show ?thesis
    by (simp add: d isdigit_not_isspace takeWhile_all dropWhile_all)
qed

lemma tokenize_digits_then:
  assumes "d \<noteq> []" and "list_all isdigit d" and "\<not> isdigit y"
  shows "tokenize (d @ y # ys) = \<lparr>type = Atom, value = d\<rparr> # tokenize (y # ys)"
proof -
  from assms obtain c cs where d: "d = c # cs" and c: "isdigit c" and cs: "list_all isdigit cs"
    by (cases d) auto
  from c cs assms(3) show ?thesis
    by (simp add: d isdigit_not_isspace takeWhile_run dropWhile_run del: tokenize.simps(2))
       (simp add: isdigit_not_isspace takeWhile_run dropWhile_run)
qed

lemma expr_unique:
  assumes "expr n input = Some r" and "expr m input = Some r'"
  shows "r = r'"
proof -
  from assms(1) have "expr (max n m) input = Some r" by (rule expr_fuel_mono) simp
  moreover from assms(2) have "expr (max n m) input = Some r'" by (rule expr_fuel_mono) simp
  ultimately show ?thesis by simp
qed

lemma expr_literal:
  assumes "d \<noteq> []" and "list_all isdigit d"
  shows "expr (2 + n) d = Some (Inr (S d []))"
proof -
  have "expr 2 d = Some (Inr (S d []))"
    by (simp add: expr_def Lexer_new_tokenize tokenize_digits [OF assms] eval_nat_numeral)
  then show ?thesis by (rule expr_fuel_plus)
qed

lemma tokenize_padded_literal:
  assumes "d \<noteq> []" and "list_all isdigit d" and "list_all isspace ws1" and "list_all isspace ws2"
  shows "tokenize (ws1 @ d @ ws2) = [\<lparr>type = Atom, value = d\<rparr>]"
proof (cases ws2)
  case Nil
  with assms show ?thesis by (simp add: tokenize_spaces tokenize_digits)
next
  case (Cons y ys)
  with assms(4) have "isspace y" by simp
  then have "\<not> isdigit y" using isdigit_not_isspace by blast
  with assms(1,2) have "tokenize (d @ y # ys) = \<lparr>type = Atom, value = d\<rparr> # tokenize (y # ys)"
    by (rule tokenize_digits_then)
  with assms(3,4) Cons show ?thesis
    by (simp add: tokenize_spaces tokenize_spaces_only del: tokenize.simps)
qed

section \<open>The lexer against the tokenizer rules\<close>

lemma spec_pieces_nondigit: "\<not> isdigit c \<Longrightarrow> spec_pieces (c # cs) = [c] # spec_pieces cs"
  by (simp split: list.splits)

lemma spec_pieces_digit:
  "isdigit c \<Longrightarrow>
   spec_pieces (c # cs) = (c # takeWhile isdigit cs) # spec_pieces (dropWhile isdigit cs)"
proof (induction cs arbitrary: c)
  case Nil
  then show ?case by simp
next
  case (Cons d ds)
  show ?case
  proof (cases "isdigit d")
    case True
    from Cons.IH [OF True] Cons.prems True show ?thesis
      by (simp del: spec_pieces.simps add: spec_pieces.simps(2) [of c])
  next
    case False
    with Cons.prems show ?thesis
      by (simp del: spec_pieces.simps add: spec_pieces.simps(2) [of c] spec_pieces_nondigit)
  qed
qed

lemma list_all_takeWhile: "list_all P (takeWhile P xs)"
  by (induction xs) simp_all

lemma tokenize_spec: "tokenize input = concat (map spec_token (spec_pieces input))"
proof (induction input rule: tokenize.induct)
  case 1
  show ?case by simp
next
  case (2 c cs)
  consider (sp) "isspace c"
    | (dg) "\<not> isspace c" "isdigit c"
    | (al) "\<not> isspace c" "\<not> isdigit c" "isalnum c"
    | (op) "\<not> isspace c" "\<not> isdigit c" "\<not> isalnum c"
    by blast
  then show ?case
  proof cases
    case sp
    then have "\<not> isdigit c" "\<not> isalnum c"
      using isdigit_not_isspace isalnum_not_isspace by blast+
    with sp "2.IH"(1) show ?thesis
      by (simp add: spec_pieces_nondigit spec_token_def del: spec_pieces.simps(2))
  next
    case dg
    with "2.IH"(2) show ?thesis
      by (simp add: spec_pieces_digit spec_token_def list_all_takeWhile del: spec_pieces.simps(2))
  next
    case al
    with "2.IH"(3) show ?thesis
      by (simp add: spec_pieces_nondigit spec_token_def del: spec_pieces.simps(2))
  next
    case op
    with "2.IH"(4) show ?thesis
      by (simp add: spec_pieces_nondigit spec_token_def del: spec_pieces.simps(2))
  qed
qed


lemma run_induct [case_names Nil Other Run]:
  assumes "P []"
    and "\<And>c cs. \<not> isdigit c \<Longrightarrow> P cs \<Longrightarrow> P (c # cs)"
    and "\<And>c cs. isdigit c \<Longrightarrow> P (dropWhile isdigit cs) \<Longrightarrow> P (c # cs)"
  shows "P s"
proof (induction "length s" arbitrary: s rule: less_induct)
  case less
  show ?case
  proof (cases s)
    case Nil
    with assms(1) show ?thesis by simp
  next
    case (Cons c cs)
    have "length (dropWhile isdigit cs) < length s"
      using Cons length_dropWhile_le [of isdigit cs] by simp
    then have "P (dropWhile isdigit cs)" by (rule less.hyps)
    moreover have "P cs" using less.hyps [of cs] Cons by simp
    ultimately show ?thesis using assms(2,3) [of c cs] Cons by blast
  qed
qed

lemma concat_spec_pieces: "concat (spec_pieces s) = s"
  by (induction s rule: run_induct)
    (simp_all add: spec_pieces_digit spec_pieces_nondigit del: spec_pieces.simps(2))

lemma spec_pieces_ok: "list_all piece_ok (spec_pieces s)"
  by (induction s rule: run_induct)
    (simp_all add: spec_pieces_digit spec_pieces_nondigit piece_ok_def list_all_takeWhile
      del: spec_pieces.simps(2))

lemma spec_pieces_after_run:
  "s = [] \<or> \<not> isdigit (hd s) \<Longrightarrow>
   spec_pieces s = [] \<or> \<not> list_all isdigit (hd (spec_pieces s))"
  by (cases s) (simp_all add: spec_pieces_nondigit del: spec_pieces.simps(2))

lemma dropWhile_starts: "dropWhile P xs = [] \<or> \<not> P (hd (dropWhile P xs))"
  by (induction xs) simp_all

lemma adjacent_runs_Cons:
  "adjacent_runs (p # ps) =
     (ps \<noteq> [] \<and> ((list_all isdigit p \<and> list_all isdigit (hd ps)) \<or> adjacent_runs ps))"
  by (cases ps) simp_all

lemma spec_pieces_maximal: "\<not> adjacent_runs (spec_pieces s)"
proof (induction s rule: run_induct)
  case Nil
  show ?case by simp
next
  case (Other c cs)
  then show ?case
    by (simp add: spec_pieces_nondigit adjacent_runs_Cons del: spec_pieces.simps(2))
next
  case (Run c cs)
  have "spec_pieces (dropWhile isdigit cs) = [] \<or>
      \<not> list_all isdigit (hd (spec_pieces (dropWhile isdigit cs)))"
    using dropWhile_starts [of isdigit cs] by (rule spec_pieces_after_run)
  with Run show ?case
    by (auto simp: spec_pieces_digit adjacent_runs_Cons simp del: spec_pieces.simps(2))
qed

lemma spec_token_no_Eof: "filter (\<lambda>t. type t = Eof) (spec_token p) = []"
  by (simp add: spec_token_def)

lemma spec_tokens_one_Eof:
  "filter (\<lambda>t. type t = Eof) (spec_tokens input) = [\<lparr>type = Eof, value = []\<rparr>]"
proof -
  have "filter (\<lambda>t. type t = Eof) (concat (map spec_token ps)) = []" for ps
    by (induction ps) (simp_all add: spec_token_no_Eof)
  then show ?thesis by (simp add: spec_tokens_def)
qed

lemma drain_Lexer_of:
  "drain k (Lexer_of ts) =
     (take k ts @ replicate (k - length ts) \<lparr>type = Eof, value = []\<rparr>, Lexer_of (drop k ts))"
proof (induction k arbitrary: ts)
  case 0
  show ?case by simp
next
  case (Suc k)
  show ?case by (cases ts) (simp_all add: Suc.IH)
qed

lemma peek_is_next: "Lexer_peek lexer = fst (Lexer_next lexer)"
  by (simp add: Lexer_peek_def Lexer_next_def)

lemma Lexer_new_spec: "Lexer_new input = Lexer_of (spec_tokens input)"
  by (simp add: Lexer_new_tokenize tokenize_spec spec_tokens_def)

section \<open>The compiler, step by step\<close>

lemma isdigit_not_NUL: "isdigit c \<Longrightarrow> c \<noteq> CHR 0x00"
  by (auto simp: isdigit_def)

lemma compile_loop_Nil: "compile_loop [] sp jit = Inr jit"
  by (simp add: compile_loop.simps)

lemma compile_loop_NUL: "compile_loop (CHR 0x00 # cs) sp jit = Inr jit"
  by (simp add: compile_loop.simps)

lemma compile_loop_digit:
  assumes "isdigit c"
  shows "compile_loop (c # cs) sp jit =
     (if 32 \<le> length (c # takeWhile isdigit cs) \<or> 2147483647 < atoi (c # takeWhile isdigit cs)
      then Inl Undefined_behaviour
      else compile_loop (dropWhile isdigit cs) (sp + 4)
             (jit @ [Stxi_i sp JIT_R0, Movi JIT_R0 (atoi (c # takeWhile isdigit cs))]))"
proof -
  have "drop (length (takeWhile isdigit cs)) cs = dropWhile isdigit cs"
    by (simp add: dropWhile_eq_drop)
  with assms show ?thesis
    by (subst compile_loop.simps)
      (simp add: isdigit_not_NUL sscanf_digits_def stack_push_def)
qed

lemma compile_loop_other:
  assumes "\<not> isdigit c" and "c \<noteq> CHR 0x00"
  shows "compile_loop (c # cs) sp jit =
     (if c = CHR ''+'' then
        compile_loop cs (sp - 4) (jit @ [Ldxi_i JIT_R1 (sp - 4), Addr JIT_R0 JIT_R1 JIT_R0])
      else if c = CHR ''-'' then
        compile_loop cs (sp - 4) (jit @ [Ldxi_i JIT_R1 (sp - 4), Subr JIT_R0 JIT_R1 JIT_R0])
      else if c = CHR ''*'' then
        compile_loop cs (sp - 4) (jit @ [Ldxi_i JIT_R1 (sp - 4), Mulr JIT_R0 JIT_R1 JIT_R0])
      else if c = CHR ''/'' then
        compile_loop cs (sp - 4) (jit @ [Ldxi_i JIT_R1 (sp - 4), Divr JIT_R0 JIT_R1 JIT_R0])
      else if c = CHR ''('' \<or> c = CHR '')'' \<or> c = CHR '' '' then compile_loop cs sp jit
      else Inl Cannot_compile)"
  using assms
  by (subst compile_loop.simps) (simp add: sscanf_digits_def stack_pop_def)


lemma is_paren_not_digit: "is_paren c \<Longrightarrow> \<not> isdigit c"
  by (auto simp: is_paren_def isdigit_def)

lemma is_paren_not_NUL: "is_paren c \<Longrightarrow> c \<noteq> CHR 0x00"
  by (auto simp: is_paren_def)

lemma paren_before_digit_Cons: "paren_before_digit cs \<Longrightarrow> paren_before_digit (c # cs)"
  by (cases cs) simp_all

lemma digit_value_nonneg: "isdigit c \<Longrightarrow> 0 \<le> int (of_char c) - 48"
  by (auto simp: isdigit_def)

lemma atoi_foldl_nonneg:
  "0 \<le> acc \<Longrightarrow> list_all isdigit x \<Longrightarrow>
   0 \<le> foldl (\<lambda>acc c. 10 * acc + (int (of_char c) - 48)) acc x"
proof (induction x arbitrary: acc)
  case Nil
  then show ?case by simp
next
  case (Cons c x)
  from Cons.prems have "0 \<le> 10 * acc + (int (of_char c) - 48)"
    using digit_value_nonneg [of c] by simp
  with Cons show ?case by simp
qed

lemma atoi_nonneg: "list_all isdigit x \<Longrightarrow> 0 \<le> atoi x"
  by (simp add: atoi_def atoi_foldl_nonneg)

lemma compile_loop_literal:
  assumes "x \<noteq> []" and "list_all isdigit x" and "length x < 32" and "atoi x \<le> 2147483647"
    and "\<not> isdigit r"
  shows "compile_loop (x @ r # rs) sp jit =
         compile_loop (r # rs) (sp + 4) (jit @ [Stxi_i sp JIT_R0, Movi JIT_R0 (atoi x)])"
proof -
  from assms obtain c cs where x: "x = c # cs" and c: "isdigit c" and cs: "list_all isdigit cs"
    by (cases x) auto
  from cs assms(5) have "takeWhile isdigit (cs @ r # rs) = cs"
    and "dropWhile isdigit (cs @ r # rs) = r # rs"
    by (simp_all add: takeWhile_run dropWhile_run)
  with c assms(3,4) show ?thesis
    by (simp add: x compile_loop_digit)
qed

lemma ucast_down_of_int: "(ucast (word_of_int a :: 64 word) :: 32 word) = word_of_int a"
  by (simp add: ucast_eq word_of_int_eq_iff uint_word_of_int_eq)

lemma sint_small:
  assumes "0 \<le> a" and "a \<le> 2147483647"
  shows "sint (word_of_int a :: 32 word) = a" and "sint (word_of_int a :: 64 word) = a"
  using assms by (simp_all add: sint_sbintrunc' signed_take_bit_int_eq_self)

lemma load_store:
  assumes "0 \<le> a" and "a \<le> 2147483647"
  shows "(scast (word_of_int a :: 32 word) :: 64 word) = word_of_int a"
  using assms by (simp add: scast_eq sint_small)

lemma sdiv_nonneg: "0 \<le> a \<Longrightarrow> 0 \<le> b \<Longrightarrow> (a::int) sdiv b = a div b"
  by (simp add: signed_divide_int_def sgn_if)

lemma word64_eq_0:
  assumes "0 \<le> a" and "a \<le> 2147483647"
  shows "(word_of_int a :: 64 word) = 0 \<longleftrightarrow> a = 0"
  using sint_small(2) [OF assms] by auto

lemma compile_two_operands:
  assumes "x \<noteq> []" and "list_all isdigit x" and "length x < 32" and "atoi x \<le> 2147483647"
    and "y \<noteq> []" and "list_all isdigit y" and "length y < 32" and "atoi y \<le> 2147483647"
    and "c \<in> {CHR ''+'', CHR ''-'', CHR ''*'', CHR ''/''}"
  shows "compile_rpn stack_base (x @ '' '' @ y @ '' '' @ [c]) =
     Inr [Getarg JIT_R2, Stxi_i stack_base JIT_R0, Movi JIT_R0 (atoi x),
          Stxi_i (stack_base + 4) JIT_R0, Movi JIT_R0 (atoi y),
          Ldxi_i JIT_R1 (stack_base + 4),
          (if c = CHR ''+'' then Addr else if c = CHR ''-'' then Subr
           else if c = CHR ''*'' then Mulr else Divr) JIT_R0 JIT_R1 JIT_R0,
          Retr JIT_R0]"
proof -
  have sp: "\<not> isdigit (CHR '' '')" by (simp add: isdigit_def)
  have nd: "\<not> isdigit c" using assms(9) by (auto simp: isdigit_def)
  have nz: "c \<noteq> CHR 0x00" using assms(9) by auto
  show ?thesis
    using assms(9)
    by (auto simp: compile_rpn_def compile_loop_literal [OF assms(1-4) sp]
        compile_loop_literal [OF assms(5-8) sp] compile_loop_other [OF sp]
        compile_loop_other [OF nd nz] compile_loop_Nil)
qed

lemma two_literals_one_operator:
  assumes "x \<noteq> []" and "list_all isdigit x" and "length x < 32" and "atoi x \<le> 2147483647"
    and "y \<noteq> []" and "list_all isdigit y" and "length y < 32" and "atoi y \<le> 2147483647"
  shows "eval stack_base arg (x @ '' '' @ y @ '' +'') m = Inr (word_of_int (atoi x + atoi y)) \<and>
         eval stack_base arg (x @ '' '' @ y @ '' -'') m = Inr (word_of_int (atoi x - atoi y)) \<and>
         eval stack_base arg (x @ '' '' @ y @ '' *'') m = Inr (word_of_int (atoi x * atoi y)) \<and>
         eval stack_base arg (x @ '' '' @ y @ '' /'') m =
           (if atoi y = 0 then Inl Division_fault else Inr (word_of_int (atoi x div atoi y)))"
proof -
  note c = compile_two_operands [OF assms, of _ stack_base, simplified]
  have x0: "0 \<le> atoi x" and y0: "0 \<le> atoi y"
    using assms by (simp_all add: atoi_nonneg)
  have ld: "(scast (ucast (word_of_int (atoi x) :: 64 word) :: 32 word) :: 64 word) =
      word_of_int (atoi x)"
    using x0 assms(4) by (simp add: ucast_down_of_int load_store)
  have plus: "eval stack_base arg (x @ '' '' @ y @ '' +'') m = Inr (word_of_int (atoi x + atoi y))"
    using c [of "CHR ''+''"] by (simp add: eval_def in_block_def ld ucast_down_of_int [symmetric])
  have minus: "eval stack_base arg (x @ '' '' @ y @ '' -'') m = Inr (word_of_int (atoi x - atoi y))"
    using c [of "CHR ''-''"] by (simp add: eval_def in_block_def ld ucast_down_of_int [symmetric])
  have times: "eval stack_base arg (x @ '' '' @ y @ '' *'') m = Inr (word_of_int (atoi x * atoi y))"
    using c [of "CHR ''*''"] by (simp add: eval_def in_block_def ld ucast_down_of_int [symmetric])
  have quot: "eval stack_base arg (x @ '' '' @ y @ '' /'') m =
           (if atoi y = 0 then Inl Division_fault else Inr (word_of_int (atoi x div atoi y)))"
    using c [of "CHR ''/''"] x0 y0 assms(4,8)
    by (simp add: eval_def in_block_def word64_eq_0 sint_small sdiv_nonneg ucast_down_of_int
        load_store)
  from plus minus times quot show ?thesis by blast
qed

subsection \<open>The compiled code runs the stack machine\<close>

lemma compile_loop_emit:
  "compile_loop e sp jit =
     (case rpn_scan e of Inl err \<Rightarrow> Inl err | Inr items \<Rightarrow> Inr (jit @ emit items sp))"
proof (induction "length e" arbitrary: e sp jit rule: less_induct)
  case less
  show ?case
  proof (cases e)
    case Nil
    then show ?thesis by (simp add: compile_loop_Nil)
  next
    case (Cons c cs)
    have IH: "compile_loop cs sp' jit' =
        (case rpn_scan cs of Inl err \<Rightarrow> Inl err | Inr items \<Rightarrow> Inr (jit' @ emit items sp'))"
      for sp' jit'
      using less [of cs] Cons by simp
    have "length (dropWhile isdigit cs) < length e"
      using Cons length_dropWhile_le [of isdigit cs] by simp
    then have IHd: "compile_loop (dropWhile isdigit cs) sp' jit' =
        (case rpn_scan (dropWhile isdigit cs) of Inl err \<Rightarrow> Inl err
         | Inr items \<Rightarrow> Inr (jit' @ emit items sp'))" for sp' jit'
      by (rule less)
    show ?thesis
    proof (cases "c = CHR 0x00")
      case True
      then show ?thesis by (simp add: Cons compile_loop_NUL)
    next
      case nz: False
      show ?thesis
      proof (cases "isdigit c")
        case True
        with nz show ?thesis
          by (simp add: Cons compile_loop_digit IHd split: sum.splits)
      next
        case False
        with nz show ?thesis
          by (simp add: Cons compile_loop_other IH split: sum.splits)
      qed
    qed
  qed
qed


lemma frame_holds_push:
  assumes "frame_holds stack_base m slots" and "length slots < 32"
  shows "frame_holds stack_base
     (m\<lparr>frame := (frame m)(stack_base + 4 * int (length slots) := x), regs := r\<rparr>) (x # slots)"
  using assms by (auto simp: frame_holds_def nth_append less_Suc_eq)

lemma frame_holds_pop:
  assumes "frame_holds stack_base m (left # below)"
  shows "frame_holds stack_base (m\<lparr>regs := r\<rparr>) below"
    and "frame m (stack_base + 4 * int (length below)) = left"
    and "in_block stack_base (stack_base + 4 * int (length below))"
proof -
  from assms have len: "length below < 32"
    and slots: "\<And>i. i < Suc (length below) \<Longrightarrow>
      frame m (stack_base + 4 * int i) = (rev below @ [left]) ! i"
    by (auto simp: frame_holds_def)
  show "frame_holds stack_base (m\<lparr>regs := r\<rparr>) below"
    using len slots by (auto simp: frame_holds_def nth_append)
  show "frame m (stack_base + 4 * int (length below)) = left"
    using slots [of "length below"] by (simp add: nth_append)
  show "in_block stack_base (stack_base + 4 * int (length below))"
    using len by (simp add: in_block_def)
qed

lemma run_emit:
  "frame_holds stack_base m slots \<Longrightarrow>
   run stack_base arg (emit items (stack_base + 4 * int (length slots)) @ [Retr JIT_R0]) m =
   stack_exec items (regs m JIT_R0) slots"
proof (induction items arbitrary: m slots)
  case Nil
  show ?case by simp
next
  case (Cons item items)
  note IH = Cons.IH and prems = Cons.prems
  show ?case
  proof (cases item)
    case (Push v)
    show ?thesis
    proof (cases "length slots < 32")
      case True
      have sp: "stack_base + 4 * int (length slots) + 4 =
          stack_base + 4 * int (length (ucast (regs m JIT_R0) # slots :: 32 word list))"
        by simp
      from True have ib: "in_block stack_base (stack_base + 4 * int (length slots))"
        by (simp add: in_block_def)
      have "frame_holds stack_base
          (m\<lparr>frame := (frame m)(stack_base + 4 * int (length slots) := ucast (regs m JIT_R0)),
             regs := (regs m)(JIT_R0 := word_of_int v)\<rparr>)
          (ucast (regs m JIT_R0) # slots)"
        using prems True by (rule frame_holds_push)
      from IH [OF this] ib show ?thesis
        by (simp add: Push True sp del: of_nat_Suc length_Cons)
    next
      case False
      then have "\<not> in_block stack_base (stack_base + 4 * int (length slots))"
        by (simp add: in_block_def)
      with False show ?thesis by (simp add: Push)
    qed
  next
    case (Apply f)
    show ?thesis
    proof (cases slots)
      case Nil
      then show ?thesis by (simp add: Apply in_block_def)
    next
      case (Cons left below)
      note pop = frame_holds_pop [OF prems [unfolded Cons]]
      have sp: "stack_base + 4 * int (Suc (length below)) - 4 =
          stack_base + 4 * int (length below)"
        by simp
      show ?thesis
        using IH [OF pop(1)] pop(2,3)
        by (cases f) (simp_all add: Apply Cons sp del: of_nat_Suc length_Cons)
    qed
  qed
qed


lemma eval_stack_exec:
  "eval stack_base arg e m =
     (case rpn_scan e of Inl err \<Rightarrow> Inl err
      | Inr items \<Rightarrow> stack_exec items (regs m JIT_R0) [])"
proof (cases "rpn_scan e")
  case (Inl err)
  then show ?thesis by (simp add: eval_def compile_rpn_def compile_loop_emit)
next
  case (Inr items)
  have "frame_holds stack_base (m\<lparr>regs := (regs m)(JIT_R2 := arg)\<rparr>) []"
    by (simp add: frame_holds_def)
  from run_emit [OF this, of arg items] Inr show ?thesis
    by (simp add: eval_def compile_rpn_def compile_loop_emit)
qed

lemma sint_int_ok:
  assumes "int_ok a"
  shows "sint (word_of_int a :: 32 word) = a" and "sint (word_of_int a :: 64 word) = a"
  using assms by (simp_all add: int_ok_def sint_sbintrunc' signed_take_bit_int_eq_self)

lemma scast_int_ok: "int_ok a \<Longrightarrow> (scast (word_of_int a :: 32 word) :: 64 word) = word_of_int a"
  by (simp add: scast_eq sint_int_ok)

lemma word64_zero_int_ok: "int_ok a \<Longrightarrow> (word_of_int a :: 64 word) = 0 \<longleftrightarrow> a = 0"
  using sint_int_ok(2) [of a] by auto

lemma alu_int_ok:
  "int_ok left \<Longrightarrow> int_ok right \<Longrightarrow>
   alu f (word_of_int left) (word_of_int right) = word_of_int (apply_binop f left right)"
  by (cases f) (simp_all add: sint_int_ok)

lemma rel_stack_length: "rel_stack stack r0 slots \<Longrightarrow> length slots = length stack"
  by (auto simp: rel_stack_def split: list.splits)

lemma stack_exec_reference:
  "rel_stack stack r0 slots \<Longrightarrow> rpn_reference items stack = Some (r # others) \<Longrightarrow>
   stack_exec items r0 slots = Inr (word_of_int r)"
proof (induction items arbitrary: stack r0 slots)
  case Nil
  then show ?case by (simp add: rel_stack_def ucast_down_of_int)
next
  case (Cons item items)
  note IH = Cons.IH and rel = Cons.prems(1) and ref = Cons.prems(2)
  show ?case
  proof (cases item)
    case (Push v)
    with ref have len: "length stack < 32" and v: "int_ok v"
      and ref': "rpn_reference items (v # stack) = Some (r # others)"
      by (auto split: if_splits)
    have "rel_stack (v # stack) (word_of_int v) (ucast r0 # slots)"
      using rel v by (auto simp: rel_stack_def ucast_down_of_int split: list.splits)
    from IH [OF this ref'] len rel_stack_length [OF rel] show ?thesis
      by (simp add: Push)
  next
    case (Apply f)
    with ref obtain right st1 where "stack = right # st1"
      by (cases stack) auto
    with ref Apply obtain left below where stack: "stack = right # left # below"
      by (cases st1) auto
    from ref have nz: "\<not> (f = Divide \<and> right = 0)"
      and ok: "int_ok (apply_binop f left right)"
      and ref': "rpn_reference items (apply_binop f left right # below) = Some (r # others)"
      by (auto simp: Apply stack split: if_splits)
    from rel obtain g where r0: "r0 = word_of_int right"
      and slots: "slots = word_of_int left # map word_of_int below @ [g]"
      and oks: "int_ok right" "int_ok left" "list_all int_ok below"
      by (auto simp: rel_stack_def stack)
    have "rel_stack (apply_binop f left right # below)
        (word_of_int (apply_binop f left right)) (map word_of_int below @ [g])"
      using ok oks by (simp add: rel_stack_def)
    from IH [OF this ref'] nz oks show ?thesis
      by (simp add: Apply r0 slots scast_int_ok alu_int_ok word64_zero_int_ok)
  qed
qed

lemma eval_reference:
  assumes "rpn_scan e = Inr items" and "rpn_reference items [] = Some (r # others)"
  shows "eval stack_base arg e m = Inr (word_of_int r)"
proof -
  have "rel_stack [] (regs m JIT_R0) []" by (simp add: rel_stack_def)
  from stack_exec_reference [OF this assms(2)] assms(1) show ?thesis
    by (simp add: eval_stack_exec)
qed

subsection \<open>Deleting parentheses\<close>

lemma strip_parens_simps [simp]:
  "strip_parens [] = []"
  "is_paren c \<Longrightarrow> strip_parens (c # cs) = strip_parens cs"
  "\<not> is_paren c \<Longrightarrow> strip_parens (c # cs) = c # strip_parens cs"
  by (simp_all add: strip_parens_def)

lemma strip_parens_dropWhile: "strip_parens (dropWhile is_paren cs) = strip_parens cs"
  by (induction cs) simp_all

lemma dropWhile_paren_starts: "dropWhile is_paren cs = d # ds \<Longrightarrow> \<not> is_paren d"
  using dropWhile_starts [of is_paren cs] by auto

lemma strip_after_parens:
  assumes "is_paren p" and "\<not> digit_after_parens (p # ps)"
  shows "takeWhile isdigit (strip_parens (p # ps)) = [] \<and>
         dropWhile isdigit (strip_parens (p # ps)) = strip_parens (p # ps)"
proof (cases "dropWhile is_paren ps")
  case Nil
  have "strip_parens ps = strip_parens (dropWhile is_paren ps)"
    by (simp add: strip_parens_dropWhile)
  also have "\<dots> = []" unfolding Nil by simp
  finally show ?thesis using assms(1) by simp
next
  case (Cons d ds)
  with assms have nd: "\<not> isdigit d" by (simp add: digit_after_parens_def)
  from Cons have np: "\<not> is_paren d" by (rule dropWhile_paren_starts)
  have "strip_parens ps = strip_parens (dropWhile is_paren ps)"
    by (simp add: strip_parens_dropWhile)
  also have "\<dots> = d # strip_parens ds" unfolding Cons using np by simp
  finally show ?thesis using assms(1) nd by simp
qed

lemma takeWhile_digits_strip_joins:
  "\<not> digit_after_parens cs \<Longrightarrow> \<not> paren_joins_digits cs \<Longrightarrow>
   takeWhile isdigit (strip_parens cs) = takeWhile isdigit cs \<and>
   dropWhile isdigit (strip_parens cs) = strip_parens (dropWhile isdigit cs)"
proof (induction cs)
  case Nil
  show ?case by simp
next
  case (Cons d ds)
  show ?case
  proof (cases "isdigit d")
    case True
    then have np: "\<not> is_paren d" using is_paren_not_digit by blast
    from Cons.prems True have "\<not> digit_after_parens ds" and "\<not> paren_joins_digits ds"
      by simp_all
    with Cons.IH True np show ?thesis by simp
  next
    case False
    show ?thesis
    proof (cases "is_paren d")
      case True
      from strip_after_parens [OF True Cons.prems(1)] False show ?thesis by simp
    next
      case np: False
      with False show ?thesis by simp
    qed
  qed
qed

lemma paren_joins_digits_dropWhile:
  "paren_joins_digits (dropWhile P cs) \<Longrightarrow> paren_joins_digits cs"
  by (induction cs) (auto split: if_splits)

lemma compile_loop_strip_joins:
  "\<not> paren_joins_digits e \<Longrightarrow> compile_loop (strip_parens e) sp jit = compile_loop e sp jit"
proof (induction "length e" arbitrary: e sp jit rule: less_induct)
  case less
  show ?case
  proof (cases e)
    case Nil
    then show ?thesis by simp
  next
    case (Cons c cs)
    from less.prems Cons have rest: "\<not> paren_joins_digits cs" by simp
    have IH: "compile_loop (strip_parens cs) sp' jit' = compile_loop cs sp' jit'" for sp' jit'
      using less.hyps [of cs] rest Cons by simp
    show ?thesis
    proof (cases "isdigit c")
      case True
      then have np: "\<not> is_paren c" using is_paren_not_digit by blast
      from less.prems Cons True have "\<not> digit_after_parens cs" by simp
      with rest have tw: "takeWhile isdigit (strip_parens cs) = takeWhile isdigit cs"
        and dw: "dropWhile isdigit (strip_parens cs) = strip_parens (dropWhile isdigit cs)"
        using takeWhile_digits_strip_joins by blast+
      have "\<not> paren_joins_digits (dropWhile isdigit cs)"
        using rest paren_joins_digits_dropWhile by blast
      moreover have "length (dropWhile isdigit cs) < length e"
        using Cons length_dropWhile_le [of isdigit cs] by simp
      ultimately have "compile_loop (strip_parens (dropWhile isdigit cs)) sp' jit' =
          compile_loop (dropWhile isdigit cs) sp' jit'" for sp' jit'
        using less.hyps by blast
      with True np tw dw show ?thesis
        by (simp add: Cons compile_loop_digit)
    next
      case False
      show ?thesis
      proof (cases "c = CHR 0x00")
        case True
        then show ?thesis by (simp add: Cons is_paren_def compile_loop_NUL)
      next
        case nz: False
        show ?thesis
        proof (cases "is_paren c")
          case True
          with False nz IH show ?thesis
            by (auto simp: Cons is_paren_def compile_loop_other)
        next
          case np: False
          with False nz IH show ?thesis
            by (simp add: Cons compile_loop_other)
        qed
      qed
    qed
  qed
qed

lemma paren_run_before_digit:
  "is_paren p \<Longrightarrow> dropWhile is_paren ps = d # ds \<Longrightarrow> isdigit d \<Longrightarrow>
   paren_before_digit (p # ps)"
proof (induction ps arbitrary: p)
  case Nil
  then show ?case by simp
next
  case (Cons q qs)
  show ?case
  proof (cases "is_paren q")
    case True
    with Cons.prems have "dropWhile is_paren qs = d # ds" by simp
    from Cons.IH [OF True this Cons.prems(3)] show ?thesis by simp
  next
    case False
    with Cons.prems show ?thesis by simp
  qed
qed

lemma paren_joins_digits_before_digit: "paren_joins_digits e \<Longrightarrow> paren_before_digit e"
proof (induction e)
  case Nil
  then show ?case by simp
next
  case (Cons c cs)
  from Cons.prems consider (here) "isdigit c" "digit_after_parens cs" | (later) "paren_joins_digits cs"
    by auto
  then show ?case
  proof cases
    case here
    then obtain p ps d ds where "cs = p # ps" "is_paren p" "dropWhile is_paren ps = d # ds" "isdigit d"
      by (auto simp: digit_after_parens_def split: list.splits)
    then have "paren_before_digit cs" using paren_run_before_digit by blast
    then show ?thesis by (rule paren_before_digit_Cons)
  next
    case later
    then have "paren_before_digit cs" by (rule Cons.IH)
    then show ?thesis by (rule paren_before_digit_Cons)
  qed
qed

text \<open>
  Where a parenthesis does stand between two digits, deleting it changes the code:
  \<^verbatim>\<open>1(2\<close> pushes 1 and 2, \<^verbatim>\<open>12\<close> pushes 12.
\<close>

lemma paren_between_digits_merges:
  "paren_joins_digits ''1(2'' \<and> strip_parens ''1(2'' = ''12'' \<and>
   compile_rpn 0 ''12'' = Inr [Getarg JIT_R2, Stxi_i 0 JIT_R0, Movi JIT_R0 12, Retr JIT_R0] \<and>
   compile_rpn 0 ''1(2'' =
     Inr [Getarg JIT_R2, Stxi_i 0 JIT_R0, Movi JIT_R0 1, Stxi_i 4 JIT_R0, Movi JIT_R0 2,
          Retr JIT_R0]"
  by code_simp

lemma foldl_append_concat:
  "foldl (\<lambda>oss s. oss @ f s) acc xs = acc @ concat (map f xs)"
  by (induction xs arbitrary: acc) simp_all

section \<open>What the parser puts into a tree\<close>

lemma inv_res_simps [simp]:
  "inv_res None" "inv_res (Some (Inl e))"
  "inv_res (Some (Inr (t, lexer))) = (heads_ok t \<and> lexer_ok lexer)"
  by (simp_all add: inv_res_def)

lemma inv_res_if:
  "(c \<Longrightarrow> inv_res a) \<Longrightarrow> (\<not> c \<Longrightarrow> inv_res b) \<Longrightarrow> inv_res (if c then a else b)"
  by simp

lemma inv_res_prod:
  "(\<And>x y. p = (x, y) \<Longrightarrow> inv_res (f x y)) \<Longrightarrow> inv_res (case_prod f p)"
  by (cases p) simp

lemma inv_res_bind:
  "inv_res a \<Longrightarrow> (\<And>t lexer. heads_ok t \<Longrightarrow> lexer_ok lexer \<Longrightarrow> inv_res (f (t, lexer))) \<Longrightarrow>
   inv_res (case a of None \<Rightarrow> None | Some s \<Rightarrow> (case s of Inl e \<Rightarrow> Some (Inl e) | Inr x \<Rightarrow> f x))"
  by (auto split: option.splits sum.splits)

lemma lexer_ok_next:
  "lexer_ok lexer \<Longrightarrow> Lexer_next lexer = (t, lexer1) \<Longrightarrow>
   token_value_ok (value t) \<and> lexer_ok lexer1"
  by (cases "tokens lexer" rule: rev_cases)
    (auto simp: lexer_ok_def Lexer_next_def token_value_ok_def)

lemma lexer_ok_peek: "lexer_ok lexer \<Longrightarrow> token_value_ok (value (Lexer_peek lexer))"
  using lexer_ok_next [of lexer "fst (Lexer_next lexer)" "snd (Lexer_next lexer)"]
  by (simp add: peek_is_next)

lemma lexer_ok_snd_next: "lexer_ok lexer \<Longrightarrow> lexer_ok (snd (Lexer_next lexer))"
  using lexer_ok_next [of lexer "fst (Lexer_next lexer)" "snd (Lexer_next lexer)"]
  by simp

lemma expr_heads_ok:
  "lexer_ok lexer \<Longrightarrow> inv_res (expr_bp n lexer min_bp)"
  "heads_ok lhs \<Longrightarrow> lexer_ok lexer \<Longrightarrow> inv_res (expr_loop n lhs lexer min_bp)"
proof (induction n arbitrary: lexer min_bp lhs)
  case 0
  { case 1 show ?case by simp }
  { case 2 show ?case by simp }
next
  case (Suc n)
  { case 1
    show ?case
      apply (subst expr_bp.simps(2))
      apply (intro inv_res_if inv_res_prod inv_res_bind Suc.IH)
      apply (auto dest: lexer_ok_next [OF 1] simp: inv_res_def)
      done }
  { case 2
    show ?case
      apply (subst expr_loop.simps(2))
      apply (intro inv_res_if inv_res_prod inv_res_bind Suc.IH)
      apply (auto simp: lexer_ok_peek lexer_ok_snd_next 2 inv_res_def)
      done }
qed


lemma isspace_not_digit: "isspace c \<Longrightarrow> \<not> isdigit c"
  using isdigit_not_isspace by blast

lemma spec_tokens_values_ok: "list_all (\<lambda>t. token_value_ok (value t)) (spec_tokens input)"
proof -
  have "list_all (\<lambda>t. token_value_ok (value t)) (concat (map spec_token ps))"
    if "list_all piece_ok ps" for ps
    using that
    by (induction ps) (auto simp: spec_token_def piece_ok_def token_value_ok_def)
  with spec_pieces_ok [of input] show ?thesis
    by (simp add: spec_tokens_def token_value_ok_def)
qed

lemma Lexer_new_ok: "lexer_ok (Lexer_new input)"
  using spec_tokens_values_ok [of input]
  by (simp add: Lexer_new_spec Lexer_of_def lexer_ok_def)

lemma expr_returns_heads_ok: "expr n input = Some (Inr t) \<Longrightarrow> heads_ok t"
  using expr_heads_ok(1) [OF Lexer_new_ok, of n input 0]
  by (auto simp: expr_def split: option.splits sum.splits)

lemma digits_no_paren_before_digit: "list_all isdigit v \<Longrightarrow> \<not> paren_before_digit v"
  by (induction v rule: paren_before_digit.induct) (auto dest: is_paren_not_digit)

lemma token_value_no_paren_before_digit: "token_value_ok v \<Longrightarrow> \<not> paren_before_digit v"
proof -
  have "\<not> paren_before_digit v" if "length v \<le> 1"
    using that by (cases v rule: paren_before_digit.cases) simp_all
  then show "token_value_ok v \<Longrightarrow> \<not> paren_before_digit v"
    using digits_no_paren_before_digit by (auto simp: token_value_ok_def)
qed

lemma paren_before_digit_append:
  "\<not> paren_before_digit a \<Longrightarrow> \<not> paren_before_digit b \<Longrightarrow>
   a = [] \<or> b = [] \<or> \<not> is_paren (last a) \<or> \<not> isdigit (hd b) \<Longrightarrow>
   \<not> paren_before_digit (a @ b)"
proof (induction a rule: paren_before_digit.induct)
  case (1 c d cs)
  then show ?case by simp
qed (cases b; auto)+

lemma to_string_children_clean:
  assumes "\<And>s. s \<in> set r \<Longrightarrow> \<not> paren_before_digit (to_string s)"
  shows "\<not> paren_before_digit (concat (map (\<lambda>s. to_string s @ '' '') r)) \<and>
         (concat (map (\<lambda>s. to_string s @ '' '') r) = [] \<or>
          last (concat (map (\<lambda>s. to_string s @ '' '') r)) = CHR '' '')"
  using assms
proof (induction r rule: rev_induct)
  case Nil
  show ?case by simp
next
  case (snoc s r)
  have one: "\<not> paren_before_digit (to_string s @ '' '')"
    using snoc.prems [of s]
    by (intro paren_before_digit_append) (simp_all add: isdigit_def)
  have "\<not> paren_before_digit (concat (map (\<lambda>s. to_string s @ '' '') r) @ to_string s @ '' '')"
    using snoc one by (intro paren_before_digit_append) (auto simp: is_paren_def isdigit_def)
  then show ?case by simp
qed

lemma to_string_no_paren_before_digit: "heads_ok t \<Longrightarrow> \<not> paren_before_digit (to_string t)"
proof (induction t)
  case (S h r)
  have "\<not> paren_before_digit (to_string s)" if "s \<in> set r" for s
    using that S by (auto simp: list_all_iff)
  then have "\<not> paren_before_digit (concat (map (\<lambda>s. to_string s @ '' '') r)) \<and>
         (concat (map (\<lambda>s. to_string s @ '' '') r) = [] \<or>
          last (concat (map (\<lambda>s. to_string s @ '' '') r)) = CHR '' '')"
    by (rule to_string_children_clean)
  moreover from S.prems have "\<not> paren_before_digit h"
    by (simp add: token_value_no_paren_before_digit)
  ultimately have "\<not> paren_before_digit (concat (map (\<lambda>s. to_string s @ '' '') r) @ h)"
    by (intro paren_before_digit_append) (auto simp: is_paren_def isdigit_def)
  then show ?case by (simp add: foldl_append_concat)
qed

lemma to_string_no_paren_joins: "heads_ok t \<Longrightarrow> \<not> paren_joins_digits (to_string t)"
  using to_string_no_paren_before_digit paren_joins_digits_before_digit by blast

section \<open>Properties of the serializer\<close>

text \<open>
  C8. For every tree, the rendering is the renderings of the children from left to right,
  each followed by one blank, and then the head of the node itself.
\<close>

theorem to_string_children_then_head:
  "to_string (S h r) = concat (map (\<lambda>s. to_string s @ '' '') r) @ h"
  by (simp add: foldl_append_concat)

section \<open>Properties of the lexer\<close>

text \<open>
  C9. For every input text: the pieces are the text cut into its maximal runs of digits
  and its other single characters; the vector of the lexer holds, first token at the
  back, one token per piece by the rules (whitespace gives none), then the end marker,
  which is the last and the only one; \<open>k\<close> calls of \<^verbatim>\<open>next\<close> return the first \<open>k\<close> of these
  tokens, continued with end markers once they are used up; and \<^verbatim>\<open>peek\<close> returns what
  the following \<^verbatim>\<open>next\<close> returns.
\<close>

theorem tokenizer_meets_rules:
  "concat (spec_pieces input) = input \<and>
   list_all piece_ok (spec_pieces input) \<and>
   \<not> adjacent_runs (spec_pieces input) \<and>
   rev (tokens (Lexer_new input)) = spec_tokens input \<and>
   last (spec_tokens input) = \<lparr>type = Eof, value = []\<rparr> \<and>
   length (filter (\<lambda>t. type t = Eof) (spec_tokens input)) = 1 \<and>
   fst (drain k (Lexer_new input)) =
     take k (spec_tokens input) @
     replicate (k - length (spec_tokens input)) \<lparr>type = Eof, value = []\<rparr> \<and>
   Lexer_peek (snd (drain k (Lexer_new input))) =
     fst (Lexer_next (snd (drain k (Lexer_new input))))"
proof -
  have "rev (tokens (Lexer_new input)) = spec_tokens input"
    by (simp add: Lexer_new_spec Lexer_of_def)
  moreover have "last (spec_tokens input) = \<lparr>type = Eof, value = []\<rparr>"
    by (simp add: spec_tokens_def)
  moreover have "length (filter (\<lambda>t. type t = Eof) (spec_tokens input)) = 1"
    by (simp add: spec_tokens_one_Eof)
  moreover have "fst (drain k (Lexer_new input)) =
     take k (spec_tokens input) @
     replicate (k - length (spec_tokens input)) \<lparr>type = Eof, value = []\<rparr>"
    by (simp add: Lexer_new_spec drain_Lexer_of)
  ultimately show ?thesis
    using concat_spec_pieces spec_pieces_ok spec_pieces_maximal peek_is_next by blast
qed

section \<open>Properties of the parser\<close>

text \<open>
  C1. On the input \<^verbatim>\<open>(3 + 4) * 5\<close> the parser returns, for every large enough step
  bound, the tree whose rendering is \<^verbatim>\<open>3 4 ) 5 * +\<close>: the closing delimiter is taken as a
  postfix operator on the \<open>4\<close> inside the right operand of \<open>+\<close>, and the product ends up
  below the sum. The assertion of \<^verbatim>\<open>test_parentheses\<close> expects \<^verbatim>\<open>3 4 + 5 *\<close>.
\<close>

theorem grouping_keeps_closing_delimiter:
  "\<exists>k. \<forall>n. expr (k + n) ''(3 + 4) * 5'' =
      Some (Inr (S ''+'' [S ''3'' [], S ''*'' [S '')'' [S ''4'' []], S ''5'' []]])) \<and>
    expr_to_string (k + n) ''(3 + 4) * 5'' = Some (Inr ''3 4 ) 5 * +'')"
proof -
  have "expr 8 ''(3 + 4) * 5'' =
      Some (Inr (S ''+'' [S ''3'' [], S ''*'' [S '')'' [S ''4'' []], S ''5'' []]]))"
    by code_simp
  then have "expr (8 + n) ''(3 + 4) * 5'' =
      Some (Inr (S ''+'' [S ''3'' [], S ''*'' [S '')'' [S ''4'' []], S ''5'' []]]))" for n
    by (rule expr_fuel_plus)
  then show ?thesis by (intro exI [of _ 8]) (simp add: expr_to_string_def)
qed

text \<open>
  C2. On the inputs \<^verbatim>\<open>3 4\<close> and \<^verbatim>\<open>456 789\<close> the parse reaches every step bound: after the
  first leaf the lookahead is a leaf, and the loop neither consumes it nor returns. The
  assertion of \<^verbatim>\<open>test_no_operators\<close> expects the second parse to return.
\<close>

theorem adjacent_leaves_never_return:
  "\<forall>n. expr n ''3 4'' = None \<and> expr n ''456 789'' = None"
proof
  fix n
  have a: "Lexer_new ''3 4'' = \<lparr>tokens = [\<lparr>type = Eof, value = []\<rparr>,
      \<lparr>type = Atom, value = ''4''\<rparr>, \<lparr>type = Atom, value = ''3''\<rparr>]\<rparr>"
    by code_simp
  have b: "Lexer_new ''456 789'' = \<lparr>tokens = [\<lparr>type = Eof, value = []\<rparr>,
      \<lparr>type = Atom, value = ''789''\<rparr>, \<lparr>type = Atom, value = ''456''\<rparr>]\<rparr>"
    by code_simp
  show "expr n ''3 4'' = None \<and> expr n ''456 789'' = None"
    by (cases n)
      (simp_all add: expr_def a b Lexer_next_def Lexer_peek_def expr_loop_Atom_lookahead)
qed

text \<open>
  C6. \<^verbatim>\<open>3 + 4 * 5\<close> renders as \<^verbatim>\<open>3 4 5 * +\<close> and \<^verbatim>\<open>3 * 4 + 5\<close> as \<^verbatim>\<open>3 4 * 5 +\<close>, for
  every large enough step bound; the infix binding powers are (5, 6) for \<open>+\<close> and \<open>-\<close> and
  (7, 8) for \<open>*\<close> and \<open>/\<close>.
\<close>

theorem precedence_of_product_over_sum:
  "(\<exists>k. \<forall>n. expr_to_string (k + n) ''3 + 4 * 5'' = Some (Inr ''3 4 5 * +'') \<and>
      expr_to_string (k + n) ''3 * 4 + 5'' = Some (Inr ''3 4 * 5 +'')) \<and>
   infix_binding_power (CHR ''+'') = (5, 6) \<and> infix_binding_power (CHR ''-'') = (5, 6) \<and>
   infix_binding_power (CHR ''*'') = (7, 8) \<and> infix_binding_power (CHR ''/'') = (7, 8)"
proof -
  have "expr_to_string 6 ''3 + 4 * 5'' = Some (Inr ''3 4 5 * +'')"
    by code_simp
  then have a: "expr_to_string (6 + n) ''3 + 4 * 5'' = Some (Inr ''3 4 5 * +'')" for n
    by (rule expr_to_string_fuel_plus)
  have "expr_to_string 6 ''3 * 4 + 5'' = Some (Inr ''3 4 * 5 +'')"
    by code_simp
  then have b: "expr_to_string (6 + n) ''3 * 4 + 5'' = Some (Inr ''3 4 * 5 +'')" for n
    by (rule expr_to_string_fuel_plus)
  from a b show ?thesis by (intro conjI exI [of _ 6]) simp_all
qed

text \<open>
  C7. An input that is one operator character throws, whatever the operator: it is taken
  as a prefix operator (or as the opening delimiter), its operand is parsed, and that
  parse starts at the end marker. Every step bound from 2 on gives the exception, and no
  step bound gives a tree.
\<close>

theorem lone_operator_throws:
  assumes "\<not> isspace c" and "\<not> isalnum c"
  shows "expr (2 + n) [c] = Some (Inl Unexpected_token) \<and>
         (\<forall>k t. expr k [c] \<noteq> Some (Inr t))"
proof -
  from assms(2) have nd: "\<not> isdigit c" by (auto simp: isdigit_isalnum)
  have tok: "tokenize [c] = [\<lparr>type = Op, value = [c]\<rparr>]"
    using assms nd by simp
  have e: "expr 2 [c] = Some (Inl Unexpected_token)"
    by (simp add: expr_def Lexer_new_tokenize tok eval_nat_numeral value0_def
        del: tokenize.simps prefix_binding_power.simps)
  then have all: "expr (2 + n) [c] = Some (Inl Unexpected_token)" for n
    by (rule expr_fuel_plus)
  have "expr k [c] \<noteq> Some (Inr t)" for k t
  proof
    assume "expr k [c] = Some (Inr t)"
    with e have "(Inl Unexpected_token :: error + S) = Inr t" by (rule expr_unique)
    then show False by simp
  qed
  with all show ?thesis by blast
qed

text \<open>The theorem at the lone \<^verbatim>\<open>=\<close>, which has no prefix entry.\<close>

theorem lone_operator_throws_witness:
  "\<not> isspace (CHR ''='') \<and> \<not> isalnum (CHR ''='') \<and> prefix_binding_power (CHR ''='') = - 1 \<and>
   expr 2 ''='' = Some (Inl Unexpected_token) \<and> (\<forall>k t. expr k ''='' \<noteq> Some (Inr t))"
  using lone_operator_throws [of "CHR ''=''" 0]
  by (simp add: isspace_def isalnum_def isdigit_def)

text \<open>
  C4. \<open>=\<close> and \<open>)\<close> have no prefix entry, and the table answers -1 for them. The parser
  does not look at the answer: it parses the operand with -1 as the minimum binding power
  and wraps it. So \<^verbatim>\<open>=3\<close> returns the tree rendered \<^verbatim>\<open>3 =\<close>, where an error is due. Under
  the minimum -1 every operator passes the postfix test, so \<^verbatim>\<open>=3+4\<close> wraps the 3 in \<open>+\<close>
  and then meets a leaf in lookahead position: the parse never returns. The same
  happens on \<^verbatim>\<open>)3 + 4(\<close>, which the comment in \<^verbatim>\<open>test_edge_cases\<close> lists among the inputs
  that should throw.
\<close>

theorem unchecked_prefix_power:
  "prefix_binding_power (CHR ''='') = - 1 \<and> prefix_binding_power (CHR '')'') = - 1 \<and>
   (\<exists>k. \<forall>n. expr (k + n) ''=3'' = Some (Inr (S ''='' [S ''3'' []])) \<and>
      expr_to_string (k + n) ''=3'' = Some (Inr ''3 ='')) \<and>
   (\<forall>n. expr n ''=3+4'' = None) \<and>
   (\<forall>n. expr n '')3 + 4('' = None)"
proof -
  have "expr 3 ''=3'' = Some (Inr (S ''='' [S ''3'' []]))"
    by code_simp
  then have tree: "expr (3 + n) ''=3'' = Some (Inr (S ''='' [S ''3'' []]))" for n
    by (rule expr_fuel_plus)
  have loop: "expr_loop k lhs
      (Lexer_of (\<lparr>type = Op, value = ''+''\<rparr> # \<lparr>type = Atom, value = ''4''\<rparr> # ts)) (- 1) = None"
    for k lhs ts
    by (cases k) (simp_all add: value0_def expr_loop_Atom_lookahead)
  have operand: "expr_bp k
      (Lexer_of (\<lparr>type = Atom, value = ''3''\<rparr> # \<lparr>type = Op, value = ''+''\<rparr> #
         \<lparr>type = Atom, value = ''4''\<rparr> # ts)) (- 1) = None"
    for k ts
    by (cases k) (simp_all add: loop)
  have t1: "tokenize ''=3+4'' = [\<lparr>type = Op, value = ''=''\<rparr>, \<lparr>type = Atom, value = ''3''\<rparr>,
      \<lparr>type = Op, value = ''+''\<rparr>, \<lparr>type = Atom, value = ''4''\<rparr>]"
    by (simp add: isspace_def isdigit_def isalnum_def)
  have t2: "tokenize '')3 + 4('' = [\<lparr>type = Op, value = '')''\<rparr>, \<lparr>type = Atom, value = ''3''\<rparr>,
      \<lparr>type = Op, value = ''+''\<rparr>, \<lparr>type = Atom, value = ''4''\<rparr>, \<lparr>type = Op, value = ''(''\<rparr>]"
    by (simp add: isspace_def isdigit_def isalnum_def)
  have a: "expr n ''=3+4'' = None" for n
    by (cases n)
      (simp_all add: expr_def Lexer_new_tokenize t1 value0_def operand del: tokenize.simps)
  have b: "expr n '')3 + 4('' = None" for n
    by (cases n)
      (simp_all add: expr_def Lexer_new_tokenize t2 value0_def operand del: tokenize.simps)
  have "\<exists>k. \<forall>n. expr (k + n) ''=3'' = Some (Inr (S ''='' [S ''3'' []])) \<and>
      expr_to_string (k + n) ''=3'' = Some (Inr ''3 ='')"
    using tree by (intro exI [of _ 3]) (simp add: expr_to_string_def)
  with a b show ?thesis by simp
qed

text \<open>
  C3, as the code has it. For an expression that is one numeric literal, with or without
  blanks around it, parsing and rendering gives the literal, and parsing and rendering
  the literal gives the literal again.
\<close>

theorem literal_roundtrip:
  assumes "d \<noteq> []" and "list_all isdigit d" and "list_all isspace ws1" and "list_all isspace ws2"
  shows "expr_to_string (2 + n) (ws1 @ d @ ws2) = Some (Inr d) \<and>
         expr_to_string (2 + m) d = Some (Inr d)"
proof -
  have "expr 2 (ws1 @ d @ ws2) = Some (Inr (S d []))"
    by (simp add: expr_def Lexer_new_tokenize tokenize_padded_literal [OF assms]
        eval_nat_numeral del: tokenize.simps)
  then have "expr (2 + n) (ws1 @ d @ ws2) = Some (Inr (S d []))"
    by (rule expr_fuel_plus)
  moreover have "expr (2 + m) d = Some (Inr (S d []))"
    using assms(1,2) by (rule expr_literal)
  ultimately show ?thesis by (simp add: expr_to_string_def)
qed

text \<open>The theorem at the input \<^verbatim>\<open> 42\<close>.\<close>

theorem literal_roundtrip_witness:
  "''42'' \<noteq> [] \<and> list_all isdigit ''42'' \<and> list_all isspace '' '' \<and> list_all isspace [] \<and>
   expr_to_string 2 '' 42'' = Some (Inr ''42'') \<and> expr_to_string 2 ''42'' = Some (Inr ''42'')"
  using literal_roundtrip [of "''42''" "'' ''" "[]" 0 0]
  by (simp add: isspace_def isdigit_def)

text \<open>
  C3 as stated fails at \<^verbatim>\<open>3 + 4\<close>: its rendering is \<^verbatim>\<open>3 4 +\<close>, and no step bound lets the
  parse of \<^verbatim>\<open>3 4 +\<close> return a tree.
\<close>

theorem roundtrip_fails_on_sum:
  "\<not> (\<exists>n m s. expr_to_string n ''3 + 4'' = Some (Inr s) \<and> expr_to_string m s = Some (Inr s))"
proof
  assume "\<exists>n m s. expr_to_string n ''3 + 4'' = Some (Inr s) \<and> expr_to_string m s = Some (Inr s)"
  then obtain n m s where first: "expr_to_string n ''3 + 4'' = Some (Inr s)"
    and second: "expr_to_string m s = Some (Inr s)" by blast
  from first obtain t where t: "expr n ''3 + 4'' = Some (Inr t)" and s: "s = to_string t"
    by (auto simp: expr_to_string_def split: option.splits sum.splits)
  have "expr 4 ''3 + 4'' = Some (Inr (S ''+'' [S ''3'' [], S ''4'' []]))"
    by code_simp
  with t have "Inr t = (Inr (S ''+'' [S ''3'' [], S ''4'' []]) :: error + S)"
    by (rule expr_unique)
  with s have s': "s = ''3 4 +''" by simp
  have toks: "tokenize ''3 4 +'' = [\<lparr>type = Atom, value = ''3''\<rparr>,
      \<lparr>type = Atom, value = ''4''\<rparr>, \<lparr>type = Op, value = ''+''\<rparr>]"
    by (simp add: isspace_def isdigit_def isalnum_def)
  have "expr m ''3 4 +'' = None"
    by (cases m)
      (simp_all add: expr_def Lexer_new_tokenize toks expr_loop_Atom_lookahead
        del: tokenize.simps)
  with second s' show False by (simp add: expr_to_string_def)
qed

section \<open>Properties of the backend\<close>

text \<open>
  C5. For every string and every state of the machine, calling the compiled code gives
  what the stack machine gives on the sequence \<open>rpn_scan\<close> reads, started with the
  register as its top and no slot in use: every operator takes the value pushed earlier
  (the slot popped) as its left operand and the top as its right operand. And whenever
  the stack machine of the contract computes \<open>r\<close> on top of its stack, the compiled code
  returns \<open>r\<close>.
\<close>

theorem compiled_code_is_the_stack_program:
  "eval stack_base arg e m =
     (case rpn_scan e of Inl err \<Rightarrow> Inl err
      | Inr items \<Rightarrow> stack_exec items (regs m JIT_R0) []) \<and>
   (rpn_scan e = Inr items \<longrightarrow> rpn_reference items [] = Some (r # others) \<longrightarrow>
      eval stack_base arg e m = Inr (word_of_int r))"
  using eval_stack_exec eval_reference by blast

text \<open>
  The theorem at \<^verbatim>\<open>3 4 +\<close>, \<^verbatim>\<open>10 5 -\<close>, \<^verbatim>\<open>10 2 3 + -\<close> and \<^verbatim>\<open>1 2 + 3 *\<close>: the compiled
  code returns 7, 5, 5 and 9.
\<close>

theorem compiled_code_is_the_stack_program_witness:
  "\<forall>stack_base arg m.
     rpn_scan ''3 4 +'' = Inr [Push 3, Push 4, Apply Plus] \<and>
     rpn_reference [Push 3, Push 4, Apply Plus] [] = Some [7] \<and>
     eval stack_base arg ''3 4 +'' m = Inr 7 \<and>
     rpn_scan ''10 5 -'' = Inr [Push 10, Push 5, Apply Minus] \<and>
     rpn_reference [Push 10, Push 5, Apply Minus] [] = Some [5] \<and>
     eval stack_base arg ''10 5 -'' m = Inr 5 \<and>
     rpn_scan ''10 2 3 + -'' = Inr [Push 10, Push 2, Push 3, Apply Plus, Apply Minus] \<and>
     rpn_reference [Push 10, Push 2, Push 3, Apply Plus, Apply Minus] [] = Some [5] \<and>
     eval stack_base arg ''10 2 3 + -'' m = Inr 5 \<and>
     rpn_scan ''1 2 + 3 *'' = Inr [Push 1, Push 2, Apply Plus, Push 3, Apply Times] \<and>
     rpn_reference [Push 1, Push 2, Apply Plus, Push 3, Apply Times] [] = Some [9] \<and>
     eval stack_base arg ''1 2 + 3 *'' m = Inr 9"
proof (intro allI)
  fix stack_base arg m
  have s1: "rpn_scan ''3 4 +'' = Inr [Push 3, Push 4, Apply Plus]"
    and s2: "rpn_scan ''10 5 -'' = Inr [Push 10, Push 5, Apply Minus]"
    and s3: "rpn_scan ''10 2 3 + -'' = Inr [Push 10, Push 2, Push 3, Apply Plus, Apply Minus]"
    and s4: "rpn_scan ''1 2 + 3 *'' = Inr [Push 1, Push 2, Apply Plus, Push 3, Apply Times]"
    by code_simp+
  have r1: "rpn_reference [Push 3, Push 4, Apply Plus] [] = Some [7]"
    and r2: "rpn_reference [Push 10, Push 5, Apply Minus] [] = Some [5]"
    and r3: "rpn_reference [Push 10, Push 2, Push 3, Apply Plus, Apply Minus] [] = Some [5]"
    and r4: "rpn_reference [Push 1, Push 2, Apply Plus, Push 3, Apply Times] [] = Some [9]"
    by (simp_all add: int_ok_def)
  show "rpn_scan ''3 4 +'' = Inr [Push 3, Push 4, Apply Plus] \<and>
     rpn_reference [Push 3, Push 4, Apply Plus] [] = Some [7] \<and>
     eval stack_base arg ''3 4 +'' m = Inr 7 \<and>
     rpn_scan ''10 5 -'' = Inr [Push 10, Push 5, Apply Minus] \<and>
     rpn_reference [Push 10, Push 5, Apply Minus] [] = Some [5] \<and>
     eval stack_base arg ''10 5 -'' m = Inr 5 \<and>
     rpn_scan ''10 2 3 + -'' = Inr [Push 10, Push 2, Push 3, Apply Plus, Apply Minus] \<and>
     rpn_reference [Push 10, Push 2, Push 3, Apply Plus, Apply Minus] [] = Some [5] \<and>
     eval stack_base arg ''10 2 3 + -'' m = Inr 5 \<and>
     rpn_scan ''1 2 + 3 *'' = Inr [Push 1, Push 2, Apply Plus, Push 3, Apply Times] \<and>
     rpn_reference [Push 1, Push 2, Apply Plus, Push 3, Apply Times] [] = Some [9] \<and>
     eval stack_base arg ''1 2 + 3 *'' m = Inr 9"
    using compiled_code_is_the_stack_program
        [of stack_base arg "''3 4 +''" m "[Push 3, Push 4, Apply Plus]" 7 "[]"]
      compiled_code_is_the_stack_program
        [of stack_base arg "''10 5 -''" m "[Push 10, Push 5, Apply Minus]" 5 "[]"]
      compiled_code_is_the_stack_program
        [of stack_base arg "''10 2 3 + -''" m
          "[Push 10, Push 2, Push 3, Apply Plus, Apply Minus]" 5 "[]"]
      compiled_code_is_the_stack_program
        [of stack_base arg "''1 2 + 3 *''" m
          "[Push 1, Push 2, Apply Plus, Push 3, Apply Times]" 9 "[]"]
    by (simp add: s1 s2 s3 s4 r1 r2 r3 r4 del: rpn_scan.simps rpn_reference.simps)
qed

text \<open>
  C10. The compiler emits nothing for \<open>(\<close> and \<open>)\<close>. For every string in which no run of
  parentheses stands directly between two digits, the instructions compiled from the
  string are those compiled from the string with every \<open>(\<close> and \<open>)\<close> deleted, blanks
  kept. Every postfix string is of this kind: the rendering of every tree whose heads
  are tokens, and so of every tree the parser returns, compiles to the same instructions
  with and without the \<open>)\<close> symbols in it, and the callable computes the same value.
\<close>

theorem parens_emit_nothing:
  "(\<not> paren_joins_digits e \<longrightarrow>
      compile_rpn stack_base (strip_parens e) = compile_rpn stack_base e) \<and>
   (heads_ok t \<longrightarrow>
      compile_rpn stack_base (strip_parens (to_string t)) = compile_rpn stack_base (to_string t) \<and>
      eval stack_base arg (strip_parens (to_string t)) m = eval stack_base arg (to_string t) m) \<and>
   (expr n input = Some (Inr t') \<longrightarrow>
      compile_rpn stack_base (strip_parens (to_string t')) =
        compile_rpn stack_base (to_string t') \<and>
      eval stack_base arg (strip_parens (to_string t')) m =
        eval stack_base arg (to_string t') m)"
  using to_string_no_paren_joins [of t] to_string_no_paren_joins [of t']
    expr_returns_heads_ok [of n input t']
  by (simp add: eval_def compile_rpn_def compile_loop_strip_joins)

text \<open>
  The theorem at \<^verbatim>\<open>(1 2 +)\<close>, and at \<^verbatim>\<open>3 4 ) 5 * +\<close>, the rendering of the parse of
  \<^verbatim>\<open>(3 + 4) * 5\<close>.
\<close>

theorem parens_emit_nothing_witness:
  "\<forall>arg m.
     \<not> paren_joins_digits ''(1 2 +)'' \<and> strip_parens ''(1 2 +)'' = ''1 2 +'' \<and>
     compile_rpn 0 ''1 2 +'' = compile_rpn 0 ''(1 2 +)'' \<and>
     heads_ok (S ''+'' [S ''3'' [], S ''*'' [S '')'' [S ''4'' []], S ''5'' []]]) \<and>
     expr 8 ''(3 + 4) * 5'' =
       Some (Inr (S ''+'' [S ''3'' [], S ''*'' [S '')'' [S ''4'' []], S ''5'' []]])) \<and>
     to_string (S ''+'' [S ''3'' [], S ''*'' [S '')'' [S ''4'' []], S ''5'' []]]) =
       ''3 4 ) 5 * +'' \<and>
     strip_parens ''3 4 ) 5 * +'' = ''3 4  5 * +'' \<and>
     compile_rpn 0 ''3 4  5 * +'' = compile_rpn 0 ''3 4 ) 5 * +'' \<and>
     eval 0 arg ''3 4  5 * +'' m = eval 0 arg ''3 4 ) 5 * +'' m"
proof (intro allI)
  fix arg m
  have e: "expr 8 ''(3 + 4) * 5'' =
     Some (Inr (S ''+'' [S ''3'' [], S ''*'' [S '')'' [S ''4'' []], S ''5'' []]]))"
    by code_simp
  have j: "\<not> paren_joins_digits ''(1 2 +)''"
    by (simp add: digit_after_parens_def is_paren_def isdigit_def)
  show "\<not> paren_joins_digits ''(1 2 +)'' \<and> strip_parens ''(1 2 +)'' = ''1 2 +'' \<and>
     compile_rpn 0 ''1 2 +'' = compile_rpn 0 ''(1 2 +)'' \<and>
     heads_ok (S ''+'' [S ''3'' [], S ''*'' [S '')'' [S ''4'' []], S ''5'' []]]) \<and>
     expr 8 ''(3 + 4) * 5'' =
       Some (Inr (S ''+'' [S ''3'' [], S ''*'' [S '')'' [S ''4'' []], S ''5'' []]])) \<and>
     to_string (S ''+'' [S ''3'' [], S ''*'' [S '')'' [S ''4'' []], S ''5'' []]]) =
       ''3 4 ) 5 * +'' \<and>
     strip_parens ''3 4 ) 5 * +'' = ''3 4  5 * +'' \<and>
     compile_rpn 0 ''3 4  5 * +'' = compile_rpn 0 ''3 4 ) 5 * +'' \<and>
     eval 0 arg ''3 4  5 * +'' m = eval 0 arg ''3 4 ) 5 * +'' m"
    using parens_emit_nothing [of "''(1 2 +)''" 0
        "S ''+'' [S ''3'' [], S ''*'' [S '')'' [S ''4'' []], S ''5'' []]]" arg m 8
        "''(3 + 4) * 5''" "S ''+'' [S ''3'' [], S ''*'' [S '')'' [S ''4'' []], S ''5'' []]]"]
      e j
    by (simp add: is_paren_def token_value_ok_def del: paren_joins_digits.simps)
qed

end
